theory Spec2Isabelle
  imports Main "HOL-Library.Word"
begin

section \<open>The block pool: data model\<close>

text \<open>
  The pool of \<^verbatim>\<open>src/unnamed/part_000\<close> (package \<^verbatim>\<open>blockchain\<close>). Go's \<^verbatim>\<open>uint\<close> is
  taken at 64 bits and \<^verbatim>\<open>int32\<close> at 32 bits; both wrap around. The untyped constants
  are integers, compared with the signed reading of an \<^verbatim>\<open>int32\<close>.
\<close>

type_synonym uint = "64 word"

type_synonym int32 = "32 word"

definition maxTries :: nat where
  "maxTries = 3"

definition maxPendingRequests :: int where
  "maxPendingRequests = 50"

definition maxTotalRequests :: int where
  "maxTotalRequests = 100"

definition maxRequestsPerPeer :: int where
  "maxRequestsPerPeer = 20"

text \<open>\<^verbatim>\<open>types.Block\<close> is an external type: the pool reads only its height.\<close>

record Block =
  Height :: uint
  Data :: nat

record bpPeer =
  peer_id :: string
  peer_height :: uint
  numRequests :: int32

record bpRequest =
  req_height :: uint
  peerId :: string
  block :: "Block option"

datatype BlockRequest = BlockRequest uint string

text \<open>
  The two ways a method of the pool panics: a \<^verbatim>\<open>panic(msg)\<close> in its body, and the read of a
  field through a nil pointer.
\<close>

datatype panic = Panic string | NilDereference

text \<open>
  The program points of \<^verbatim>\<open>requestRoutine\<close>, one before each call that takes a lock, each
  load of the running flag and each write to a channel. \<^verbatim>\<open>sendRequest\<close> and
  \<^verbatim>\<open>sendTimeout\<close> hold no lock between their load of the flag and their write, so each is
  two program points: \<open>AtSend\<close> and \<open>AtTimeout\<close> before the load, \<open>AtSendWrite\<close> and
  \<open>AtTimeoutWrite\<close> before the write. The chosen peer is kept by its id (the routine reads
  nothing else of it), and \<^verbatim>\<open>try\<close> is the loop counter.
\<close>

datatype routine_pc =
    AtIsRunning
  | AtPick
  | AtSetPeer string
  | AtSend string nat
  | AtSendWrite string nat
  | AtHasBlock string nat
  | AtDecrFilled string
  | AtStatus string nat
  | AtDecrPassed string
  | AtRemove string
  | AtTimeout string
  | AtTimeoutWrite string
  | Returned

record routine =
  r_height :: uint
  r_pc :: routine_pc

text \<open>The program points of \<^verbatim>\<open>run\<close>, the admission loop.\<close>

datatype run_pc =
    RunCheck
  | RunStatus
  | RunNext
  | RunMake uint
  | RunExited

text \<open>
  The pool with what belongs to it at run time: the messages written so far to its two
  channels, the \<^verbatim>\<open>run\<close> goroutines started by \<^verbatim>\<open>Start\<close> and the \<^verbatim>\<open>requestRoutine\<close>
  goroutines started by \<^verbatim>\<open>makeRequest\<close> and \<^verbatim>\<open>RedoRequest\<close>. A method body that runs
  under its mutex is one atomic step. The repeat timer is not modelled.
\<close>

record BlockPool =
  requests :: "uint \<rightharpoonup> bpRequest"
  height :: uint
  numPending :: int32
  numTotal :: int32
  peers :: "string \<rightharpoonup> bpPeer"
  requestsCh :: "BlockRequest list"
  timeoutsCh :: "string list"
  running :: int32
  runners :: "run_pc list"
  routines :: "routine list"

section \<open>The methods of the pool\<close>

definition NewBlockPool :: "uint \<Rightarrow> BlockPool" where
  "NewBlockPool start =
     \<lparr>requests = Map.empty, height = start, numPending = 0, numTotal = 0,
      peers = Map.empty, requestsCh = [], timeoutsCh = [], running = 0,
      runners = [], routines = []\<rparr>"

text \<open>
  \<^verbatim>\<open>go requestRoutine(pool, h)\<close>: a new routine for \<open>h\<close>, at the head of its loop.
\<close>

definition go_requestRoutine :: "uint \<Rightarrow> BlockPool \<Rightarrow> BlockPool" where
  "go_requestRoutine h s = s\<lparr>routines := routines s @ [\<lparr>r_height = h, r_pc = AtIsRunning\<rparr>]\<rparr>"

text \<open>
  \<^verbatim>\<open>Start\<close> and \<^verbatim>\<open>Stop\<close> swap the running flag; \<^verbatim>\<open>Start\<close> also starts \<^verbatim>\<open>run\<close>.
\<close>

definition Start :: "BlockPool \<Rightarrow> BlockPool" where
  "Start s = (if running s = 0 then s\<lparr>running := 1, runners := runners s @ [RunCheck]\<rparr> else s)"

definition Stop :: "BlockPool \<Rightarrow> BlockPool" where
  "Stop s = (if running s = 1 then s\<lparr>running := 0\<rparr> else s)"

definition IsRunning :: "BlockPool \<Rightarrow> bool" where
  "IsRunning s = (running s = 1)"

definition GetStatus :: "BlockPool \<Rightarrow> (uint \<times> int32 \<times> int32) \<times> BlockPool" where
  "GetStatus s = ((height s, numPending s, numTotal s), s)"

definition PeekTwoBlocks :: "BlockPool \<Rightarrow> (Block option \<times> Block option) \<times> BlockPool" where
  "PeekTwoBlocks s =
     (let first = (case requests s (height s) of None \<Rightarrow> None | Some r \<Rightarrow> block r);
          second = (case requests s (height s + 1) of None \<Rightarrow> None | Some r \<Rightarrow> block r)
      in ((first, second), s))"

text \<open>
  A method that can panic returns \<open>Inl\<close> with the panic and the pool as it stood when the
  panic was raised, and \<open>Inr\<close> with the updated pool when it returns.
\<close>

type_synonym outcome = "(panic \<times> BlockPool) + BlockPool"

definition PopRequest :: "BlockPool \<Rightarrow> outcome" where
  "PopRequest s =
     (case requests s (height s) of
        None \<Rightarrow> Inl (Panic ''PopRequest() requires a valid block'', s)
      | Some r \<Rightarrow>
          (case block r of
             None \<Rightarrow> Inl (Panic ''PopRequest() requires a valid block'', s)
           | Some b \<Rightarrow>
               Inr (s\<lparr>requests := (requests s)(height s := None),
                       height := height s + 1,
                       numTotal := numTotal s - 1\<rparr>)))"

definition RemovePeer :: "string \<Rightarrow> BlockPool \<Rightarrow> BlockPool" where
  "RemovePeer pid s = s\<lparr>peers := (peers s)(pid := None)\<rparr>"

text \<open>
  \<^verbatim>\<open>RedoRequest\<close> reads \<^verbatim>\<open>request.block\<close> without a nil check: with no request at the
  height the read is a nil pointer dereference, which panics.
\<close>

definition RedoRequest :: "uint \<Rightarrow> BlockPool \<Rightarrow> outcome" where
  "RedoRequest h s =
     (case requests s h of
        None \<Rightarrow> Inl (NilDereference, s)
      | Some request \<Rightarrow>
          (case block request of
             None \<Rightarrow> Inl (Panic ''Expected block to be non-nil'', s)
           | Some b \<Rightarrow>
               (let s1 = RemovePeer (peerId request) s;
                    s2 = s1\<lparr>requests := (requests s1)(h \<mapsto> request\<lparr>block := None, peerId := ''''\<rparr>),
                            numPending := numPending s1 + 1\<rparr>
                in Inr (go_requestRoutine h s2))))"

definition hasBlock :: "uint \<Rightarrow> BlockPool \<Rightarrow> bool \<times> BlockPool" where
  "hasBlock h s =
     ((case requests s h of None \<Rightarrow> False | Some request \<Rightarrow> block request \<noteq> None), s)"

definition setPeerForRequest :: "uint \<Rightarrow> string \<Rightarrow> BlockPool \<Rightarrow> BlockPool" where
  "setPeerForRequest h pid s =
     (case requests s h of
        None \<Rightarrow> s
      | Some request \<Rightarrow> s\<lparr>requests := (requests s)(h \<mapsto> request\<lparr>peerId := pid\<rparr>)\<rparr>)"

text \<open>
  \<^verbatim>\<open>AddBlock\<close> is given a block, not nil: it reads the block's height first.
\<close>

definition AddBlock :: "Block \<Rightarrow> string \<Rightarrow> BlockPool \<Rightarrow> BlockPool" where
  "AddBlock b pid s =
     (case requests s (Height b) of
        None \<Rightarrow> s
      | Some request \<Rightarrow>
          if peerId request \<noteq> pid then s
          else if block request \<noteq> None then s
          else s\<lparr>requests := (requests s)(Height b \<mapsto> request\<lparr>block := Some b\<rparr>),
                 numPending := numPending s - 1\<rparr>)"

definition SetPeerHeight :: "string \<Rightarrow> uint \<Rightarrow> BlockPool \<Rightarrow> BlockPool" where
  "SetPeerHeight pid h s =
     (case peers s pid of
        Some peer \<Rightarrow> s\<lparr>peers := (peers s)(pid \<mapsto> peer\<lparr>peer_height := h\<rparr>)\<rparr>
      | None \<Rightarrow>
          s\<lparr>peers := (peers s)(pid \<mapsto> \<lparr>peer_id = pid, peer_height = h, numRequests = 0\<rparr>)\<rparr>)"

text \<open>
  \<^verbatim>\<open>pickIncrAvailablePeer\<close> ranges over the map in an order Go leaves open. The order of
  one call is a parameter: the list of keys in the order the loop visits them.
\<close>

fun pick_scan :: "string list \<Rightarrow> uint \<Rightarrow> (string \<rightharpoonup> bpPeer) \<Rightarrow> bpPeer option \<times> (string \<rightharpoonup> bpPeer)" where
  "pick_scan [] minHeight ps = (None, ps)"
| "pick_scan (k # ks) minHeight ps =
     (case ps k of
        None \<Rightarrow> pick_scan ks minHeight ps
      | Some peer \<Rightarrow>
          if maxRequestsPerPeer \<le> sint (numRequests peer) then pick_scan ks minHeight ps
          else if peer_height peer < minHeight then pick_scan ks minHeight ps
          else (let peer' = peer\<lparr>numRequests := numRequests peer + 1\<rparr>
                in (Some peer', ps(k \<mapsto> peer'))))"

definition pickIncrAvailablePeer :: "string list \<Rightarrow> uint \<Rightarrow> BlockPool \<Rightarrow> bpPeer option \<times> BlockPool" where
  "pickIncrAvailablePeer order minHeight s =
     (case pick_scan order minHeight (peers s) of (r, ps) \<Rightarrow> (r, s\<lparr>peers := ps\<rparr>))"

definition decrPeer :: "string \<Rightarrow> BlockPool \<Rightarrow> BlockPool" where
  "decrPeer pid s =
     (case peers s pid of
        None \<Rightarrow> s
      | Some peer \<Rightarrow> s\<lparr>peers := (peers s)(pid \<mapsto> peer\<lparr>numRequests := numRequests peer - 1\<rparr>)\<rparr>)"

definition nextHeight :: "BlockPool \<Rightarrow> uint \<times> BlockPool" where
  "nextHeight s = (height s + scast (numTotal s), s)"

text \<open>\<^verbatim>\<open>makeRequest\<close> has no panic of its own: every path returns.\<close>

definition makeRequest :: "uint \<Rightarrow> BlockPool \<Rightarrow> outcome" where
  "makeRequest h s =
     (let s1 = s\<lparr>requests := (requests s)(h \<mapsto> \<lparr>req_height = h, peerId = '''', block = None\<rparr>)\<rparr>;
          nextH = height s1 + scast (numTotal s1);
          s2 = (if nextH = h
                then s1\<lparr>numTotal := numTotal s1 + 1, numPending := numPending s1 + 1\<rparr>
                else s1)
      in Inr (go_requestRoutine h s2))"

text \<open>
  \<^verbatim>\<open>sendRequest\<close> and \<^verbatim>\<open>sendTimeout\<close> load the running flag and return if it is 0;
  otherwise they write to their channel. The load is a step of \<open>routine_step\<close> below; the
  write, a step of its own, appends to the messages written to the channel.
\<close>

definition sendRequest_write :: "uint \<Rightarrow> string \<Rightarrow> BlockPool \<Rightarrow> BlockPool" where
  "sendRequest_write h pid s = s\<lparr>requestsCh := requestsCh s @ [BlockRequest h pid]\<rparr>"

definition sendTimeout_write :: "string \<Rightarrow> BlockPool \<Rightarrow> BlockPool" where
  "sendTimeout_write pid s = s\<lparr>timeoutsCh := timeoutsCh s @ [pid]\<rparr>"

section \<open>The goroutines\<close>

text \<open>
  One step of \<^verbatim>\<open>run\<close> from a program point: the new program point and pool, or the
  panic that ends the process.
\<close>

fun run_step :: "run_pc \<Rightarrow> BlockPool \<Rightarrow> (panic \<times> BlockPool) + (run_pc \<times> BlockPool)" where
  "run_step RunCheck s = (if running s = 0 then Inr (RunExited, s) else Inr (RunStatus, s))"
| "run_step RunStatus s =
     (case GetStatus s of
        ((h, nPending, nTotal), s') \<Rightarrow>
          if maxPendingRequests \<le> sint nPending then Inr (RunCheck, s')
          else if maxTotalRequests \<le> sint nTotal then Inr (RunCheck, s')
          else Inr (RunNext, s'))"
| "run_step RunNext s = (case nextHeight s of (h, s') \<Rightarrow> Inr (RunMake h, s'))"
| "run_step (RunMake h) s =
     (case makeRequest h s of Inl e \<Rightarrow> Inl e | Inr s' \<Rightarrow> Inr (RunCheck, s'))"
| "run_step RunExited s = Inr (RunExited, s)"

text \<open>
  One step of \<^verbatim>\<open>requestRoutine(pool, h)\<close> from a program point. \<open>order\<close> is the order in
  which a pick at this step ranges over the peers. The sleeps are the gaps between steps.
\<close>

fun routine_step :: "string list \<Rightarrow> uint \<Rightarrow> routine_pc \<Rightarrow> BlockPool \<Rightarrow> routine_pc \<times> BlockPool" where
  "routine_step order h AtIsRunning s = (if \<not> IsRunning s then (Returned, s) else (AtPick, s))"
| "routine_step order h AtPick s =
     (case pickIncrAvailablePeer order h s of
        (None, s') \<Rightarrow> (AtIsRunning, s')
      | (Some peer, s') \<Rightarrow> (AtSetPeer (peer_id peer), s'))"
| "routine_step order h (AtSetPeer p) s =
     (if 0 < maxTries then AtSend p 0 else AtRemove p, setPeerForRequest h p s)"
| "routine_step order h (AtSend p try) s =
     (if running s = 0 then (AtHasBlock p try, s) else (AtSendWrite p try, s))"
| "routine_step order h (AtSendWrite p try) s = (AtHasBlock p try, sendRequest_write h p s)"
| "routine_step order h (AtHasBlock p try) s =
     (case hasBlock h s of (found, s') \<Rightarrow> if found then (AtDecrFilled p, s') else (AtStatus p try, s'))"
| "routine_step order h (AtDecrFilled p) s = (Returned, decrPeer p s)"
| "routine_step order h (AtStatus p try) s =
     (case GetStatus s of
        ((bpHeight, nPending, nTotal), s') \<Rightarrow>
          if h < bpHeight then (AtDecrPassed p, s')
          else if try + 1 < maxTries then (AtSend p (try + 1), s')
          else (AtRemove p, s'))"
| "routine_step order h (AtDecrPassed p) s = (Returned, decrPeer p s)"
| "routine_step order h (AtRemove p) s = (AtTimeout p, RemovePeer p s)"
| "routine_step order h (AtTimeout p) s =
     (if running s = 0 then (AtIsRunning, s) else (AtTimeoutWrite p, s))"
| "routine_step order h (AtTimeoutWrite p) s = (AtIsRunning, sendTimeout_write p s)"
| "routine_step order h Returned s = (Returned, s)"

section \<open>The pool as a transition system\<close>

text \<open>
  What can happen to a pool: a call from the pool's owner, the network layer or the
  consumer, or one step of one of its goroutines. A step of a routine that picks a peer
  names the order of the map iteration, which must list the registry's keys once each.
\<close>

datatype action =
    CallStart
  | CallStop
  | CallSetPeerHeight string uint
  | CallRemovePeer string
  | CallAddBlock Block string
  | CallPopRequest
  | CallRedoRequest uint
  | StepRun nat
  | StepRoutine nat "string list"

text \<open>
  \<open>exec a s\<close> is the pool after \<open>a\<close>, or \<open>None\<close> when \<open>a\<close> cannot happen in \<open>s\<close> or
  panics (a panic ends the process). The spec leaves a restart of a stopped pool
  undefined, so \<open>CallStart\<close> on a stopped pool that has run before is left out;
  a pool is started at most once.
\<close>

fun exec :: "action \<Rightarrow> BlockPool \<Rightarrow> BlockPool option" where
  "exec CallStart s = (if running s = 0 \<and> runners s \<noteq> [] then None else Some (Start s))"
| "exec CallStop s = Some (Stop s)"
| "exec (CallSetPeerHeight pid h) s = Some (SetPeerHeight pid h s)"
| "exec (CallRemovePeer pid) s = Some (RemovePeer pid s)"
| "exec (CallAddBlock b pid) s = Some (AddBlock b pid s)"
| "exec CallPopRequest s = (case PopRequest s of Inl e \<Rightarrow> None | Inr s' \<Rightarrow> Some s')"
| "exec (CallRedoRequest h) s = (case RedoRequest h s of Inl e \<Rightarrow> None | Inr s' \<Rightarrow> Some s')"
| "exec (StepRun i) s =
     (if i < length (runners s)
      then (case run_step (runners s ! i) s of
              Inl e \<Rightarrow> None
            | Inr (pc', s') \<Rightarrow> Some (s'\<lparr>runners := (runners s')[i := pc']\<rparr>))
      else None)"
| "exec (StepRoutine i order) s =
     (if i < length (routines s) \<and>
         (r_pc (routines s ! i) = AtPick \<longrightarrow> distinct order \<and> set order = dom (peers s))
      then (case routine_step order (r_height (routines s ! i)) (r_pc (routines s ! i)) s of
              (pc', s') \<Rightarrow> Some (s'\<lparr>routines := (routines s')[i := (routines s' ! i)\<lparr>r_pc := pc'\<rparr>]\<rparr>))
      else None)"

fun exec_all :: "action list \<Rightarrow> BlockPool \<Rightarrow> BlockPool option" where
  "exec_all [] s = Some s"
| "exec_all (a # as) s = (case exec a s of None \<Rightarrow> None | Some s' \<Rightarrow> exec_all as s')"

inductive reachable :: "BlockPool \<Rightarrow> bool" where
  reachable_init: "reachable (NewBlockPool start)"
| reachable_step: "reachable s \<Longrightarrow> exec a s = Some s' \<Longrightarrow> reachable s'"

text \<open>
  The pools reachable without a call of \<^verbatim>\<open>RedoRequest\<close>.
\<close>

fun is_redo :: "action \<Rightarrow> bool" where
  "is_redo (CallRedoRequest h) = True"
| "is_redo a = False"

inductive reachable_no_redo :: "BlockPool \<Rightarrow> bool" where
  no_redo_init: "reachable_no_redo (NewBlockPool start)"
| no_redo_step: "reachable_no_redo s \<Longrightarrow> \<not> is_redo a \<Longrightarrow> exec a s = Some s' \<Longrightarrow> reachable_no_redo s'"




section \<open>A round of a routine with its peer\<close>



section \<open>The words of the claims\<close>

text \<open>
  The condition under which \<^verbatim>\<open>add_block\<close> accepts a block, as the specification words it:
  a request at the block's height exists, is assigned to the peer, and is not yet filled.
\<close>

definition add_accepted :: "Block \<Rightarrow> string \<Rightarrow> BlockPool \<Rightarrow> bool" where
  "add_accepted b pid s =
     (case requests s (Height b) of None \<Rightarrow> False | Some r \<Rightarrow> peerId r = pid \<and> block r = None)"

text \<open>
  A peer that \<^verbatim>\<open>pick_and_increment\<close> may return: tall enough and under the cap.
\<close>

definition available :: "uint \<Rightarrow> bpPeer \<Rightarrow> bool" where
  "available minHeight q \<longleftrightarrow>
     minHeight \<le> peer_height q \<and> sint (numRequests q) < maxRequestsPerPeer"

text \<open>
  The two bounds on the counters of the registered peers.
\<close>

definition under_cap :: "BlockPool \<Rightarrow> bool" where
  "under_cap s \<longleftrightarrow> (\<forall>k q. peers s k = Some q \<longrightarrow> sint (numRequests q) \<le> maxRequestsPerPeer)"

definition not_negative :: "BlockPool \<Rightarrow> bool" where
  "not_negative s \<longleftrightarrow> (\<forall>k q. peers s k = Some q \<longrightarrow> 0 \<le> sint (numRequests q))"

section \<open>Invariants\<close>

text \<open>
  The heights whose request has no block yet, the window of \<open>n\<close> heights from \<open>h\<close>, and
  the invariant: the requests cover exactly the window of \<open>numTotal\<close> heights from
  \<open>height\<close>, \<open>numPending\<close> counts the requests with no block, at most 100 requests are in
  the window, and a \<^verbatim>\<open>run\<close> goroutine that has passed its check of \<open>numTotal\<close> holds the
  next free height.
\<close>

definition unfilled :: "BlockPool \<Rightarrow> uint set" where
  "unfilled s = {h. \<exists>r. requests s h = Some r \<and> block r = None}"

definition window :: "uint \<Rightarrow> nat \<Rightarrow> uint set" where
  "window h n = (\<lambda>i. h + of_nat i) ` {..<n}"

fun runner_ok :: "BlockPool \<Rightarrow> nat \<Rightarrow> run_pc \<Rightarrow> bool" where
  "runner_ok s n RunNext = (n < 100)"
| "runner_ok s n (RunMake h) = (n < 100 \<and> h = height s + of_nat n)"
| "runner_ok s n pc = True"

definition pool_inv_n :: "nat \<Rightarrow> BlockPool \<Rightarrow> bool" where
  "pool_inv_n n s \<longleftrightarrow>
     n \<le> 100 \<and> numTotal s = of_nat n \<and> dom (requests s) = window (height s) n \<and>
     numPending s = of_nat (card (unfilled s)) \<and>
     length (runners s) \<le> 1 \<and> list_all (runner_ok s n) (runners s)"

definition pool_inv :: "BlockPool \<Rightarrow> bool" where
  "pool_inv s \<longleftrightarrow> (\<exists>n. pool_inv_n n s)"

text \<open>
  What the invariant reads of a pool.
\<close>

definition core :: "BlockPool \<Rightarrow> uint set \<times> uint set \<times> uint \<times> int32 \<times> int32 \<times> run_pc list" where
  "core s = (dom (requests s), unfilled s, height s, numPending s, numTotal s, runners s)"

text \<open>
  The bound of 50 on \<open>numPending\<close>, with what \<^verbatim>\<open>run\<close> knows after its check.
\<close>

fun admitting :: "run_pc \<Rightarrow> bool" where
  "admitting RunNext = True"
| "admitting (RunMake h) = True"
| "admitting pc = False"

definition pending_inv :: "BlockPool \<Rightarrow> bool" where
  "pending_inv s \<longleftrightarrow>
     sint (numPending s) \<le> 50 \<and>
     list_all (\<lambda>pc. admitting pc \<longrightarrow> sint (numPending s) < 50) (runners s)"




section \<open>Concrete pools, traces and schedules\<close>

text \<open>
  The traces drive a pool from \<open>NewBlockPool 0\<close>: a peer \<open>A\<close> registers, the pool is
  started, \<open>admit\<close> is one turn of \<^verbatim>\<open>run\<close> that makes a request, and \<open>assign i p\<close> lets
  routine \<open>i\<close> pick peer \<open>p\<close>, record it and send its first request. The pools named \<open>s_\<dots>\<close> are the ones the traces
  end in.
\<close>

definition blk :: "uint \<Rightarrow> Block" where
  "blk h = \<lparr>Height = h, Data = 0\<rparr>"

definition admit :: "action list" where
  "admit = [StepRun 0, StepRun 0, StepRun 0, StepRun 0]"

definition admit10 :: "action list" where
  "admit10 = admit @ admit @ admit @ admit @ admit @ admit @ admit @ admit @ admit @ admit"

definition assign :: "nat \<Rightarrow> string \<Rightarrow> action list" where
  "assign i p =
     [StepRoutine i [], StepRoutine i [p], StepRoutine i [], StepRoutine i [], StepRoutine i []]"

definition trace_assigned :: "action list" where
  "trace_assigned = [CallSetPeerHeight ''A'' 5, CallStart] @ admit @ assign 0 ''A''"

definition s_assigned :: BlockPool where
  "s_assigned =
     \<lparr>requests = [0 \<mapsto> \<lparr>req_height = 0, peerId = ''A'', block = None\<rparr>], height = 0,
      numPending = 1, numTotal = 1,
      peers = [''A'' \<mapsto> \<lparr>peer_id = ''A'', peer_height = 5, numRequests = 1\<rparr>],
      requestsCh = [BlockRequest 0 ''A''], timeoutsCh = [], running = 1, runners = [RunCheck],
      routines = [\<lparr>r_height = 0, r_pc = AtHasBlock ''A'' 0\<rparr>]\<rparr>"

definition s_filled :: BlockPool where
  "s_filled =
     \<lparr>requests = [0 \<mapsto> \<lparr>req_height = 0, peerId = ''A'', block = Some (blk 0)\<rparr>], height = 0,
      numPending = 0, numTotal = 1,
      peers = [''A'' \<mapsto> \<lparr>peer_id = ''A'', peer_height = 5, numRequests = 1\<rparr>],
      requestsCh = [BlockRequest 0 ''A''], timeoutsCh = [], running = 1, runners = [RunCheck],
      routines = [\<lparr>r_height = 0, r_pc = AtHasBlock ''A'' 0\<rparr>]\<rparr>"

definition s_popped :: BlockPool where
  "s_popped =
     \<lparr>requests = Map.empty, height = 1, numPending = 0, numTotal = 0,
      peers = [''A'' \<mapsto> \<lparr>peer_id = ''A'', peer_height = 5, numRequests = 1\<rparr>],
      requestsCh = [BlockRequest 0 ''A''], timeoutsCh = [], running = 1, runners = [RunCheck],
      routines = [\<lparr>r_height = 0, r_pc = AtHasBlock ''A'' 0\<rparr>]\<rparr>"


definition trace_gap :: "action list" where
  "trace_gap = [CallSetPeerHeight ''A'' 5, CallStart] @ admit @ admit @ assign 1 ''A'' @
     [CallAddBlock (blk 1) ''A'']"

definition s_gap :: BlockPool where
  "s_gap =
     \<lparr>requests = [0 \<mapsto> \<lparr>req_height = 0, peerId = '''', block = None\<rparr>,
                  1 \<mapsto> \<lparr>req_height = 1, peerId = ''A'', block = Some (blk 1)\<rparr>],
      height = 0, numPending = 1, numTotal = 2,
      peers = [''A'' \<mapsto> \<lparr>peer_id = ''A'', peer_height = 5, numRequests = 1\<rparr>],
      requestsCh = [BlockRequest 1 ''A''], timeoutsCh = [], running = 1, runners = [RunCheck],
      routines = [\<lparr>r_height = 0, r_pc = AtIsRunning\<rparr>, \<lparr>r_height = 1, r_pc = AtHasBlock ''A'' 0\<rparr>]\<rparr>"

definition s_capped :: BlockPool where
  "s_capped = (NewBlockPool 0)
     \<lparr>peers := [''A'' \<mapsto> \<lparr>peer_id = ''A'', peer_height = 1000, numRequests = 20\<rparr>,
                 ''B'' \<mapsto> \<lparr>peer_id = ''B'', peer_height = 1000, numRequests = 3\<rparr>]\<rparr>"

definition trace_full :: "action list" where
  "trace_full = [CallSetPeerHeight ''A'' 5, CallStart] @ admit @ admit @
     assign 0 ''A'' @ assign 1 ''A'' @ [CallAddBlock (blk 0) ''A'', CallAddBlock (blk 1) ''A''] @
     admit10 @ admit10 @ admit10 @ admit10 @ admit10"

definition s_full :: BlockPool where
  "s_full = the (exec_all trace_full (NewBlockPool 0))"

definition s_over :: BlockPool where
  "s_over = the (exec (CallRedoRequest 0) s_full)"





definition trace_below :: "action list" where
  "trace_below = [CallSetPeerHeight ''A'' 5, CallStart] @ admit @ assign 0 ''A'' @
     [CallAddBlock (blk 0) ''A'', CallRemovePeer ''A'', CallSetPeerHeight ''A'' 5,
      StepRoutine 0 [], StepRoutine 0 []]"

definition s_below :: BlockPool where
  "s_below =
     \<lparr>requests = [0 \<mapsto> \<lparr>req_height = 0, peerId = ''A'', block = Some (blk 0)\<rparr>], height = 0,
      numPending = 0, numTotal = 1,
      peers = [''A'' \<mapsto> \<lparr>peer_id = ''A'', peer_height = 5, numRequests = - 1\<rparr>],
      requestsCh = [BlockRequest 0 ''A''], timeoutsCh = [], running = 1, runners = [RunCheck],
      routines = [\<lparr>r_height = 0, r_pc = Returned\<rparr>]\<rparr>"







section \<open>Machine arithmetic and windows of heights\<close>

lemma sint_of_nat32: "n \<le> 1000 \<Longrightarrow> sint (of_nat n :: int32) = int n"
proof -
  assume a: "n \<le> 1000"
  have "sint (word_of_int (int n) :: int32) = signed_take_bit (LENGTH(32) - 1) (int n)"
    by (rule sint_sbintrunc')
  then show ?thesis using a by (simp add: signed_take_bit_int_eq_self)
qed

lemma scast_of_nat32: "n \<le> 1000 \<Longrightarrow> (scast (of_nat n :: int32) :: uint) = of_nat n"
  by (simp add: scast_eq sint_of_nat32)

lemma sint_pred32: "- 2147483648 < sint (x :: int32) \<Longrightarrow> sint (x - 1) = sint x - 1"
proof -
  assume a: "- 2147483648 < sint x"
  have "sint x < 2 ^ 31" using sint_lt [of x] by simp
  then show ?thesis using a
    by (simp add: sint_word_ariths signed_take_bit_int_eq_self)
qed

lemma sint_succ32: "sint (x :: int32) < 2147483647 \<Longrightarrow> sint (x + 1) = sint x + 1"
proof -
  assume a: "sint x < 2147483647"
  have "- (2 ^ 31) \<le> sint x" using sint_ge [of x] by simp
  then show ?thesis using a
    by (simp add: sint_word_ariths signed_take_bit_int_eq_self)
qed

lemma of_nat_pred32: "0 < n \<Longrightarrow> (of_nat (n - 1) :: int32) = of_nat n - 1"
  by (cases n) simp_all

lemma window_inj: "i < 2 ^ 64 \<Longrightarrow> j < 2 ^ 64 \<Longrightarrow> (h :: uint) + of_nat i = h + of_nat j \<Longrightarrow> i = j"
  by (simp add: word_of_nat_eq_iff take_bit_nat_eq_self)

lemma window_inj_on: "n \<le> 1000 \<Longrightarrow> inj_on (\<lambda>i. (h :: uint) + of_nat i) {..<n}"
  by (rule inj_onI) (auto intro!: window_inj)

lemma finite_window: "finite (window h n)"
  by (simp add: window_def)

lemma card_window: "n \<le> 1000 \<Longrightarrow> card (window h n) = n"
  by (simp add: window_def card_image window_inj_on)

lemma window_Suc: "window h (Suc n) = insert (h + of_nat n) (window h n)"
  by (simp add: window_def lessThan_Suc)

lemma window_top_notin: "n \<le> 1000 \<Longrightarrow> h + of_nat n \<notin> window h n"
proof
  assume n: "n \<le> 1000" and "h + of_nat n \<in> window h n"
  then obtain i where i: "i < n" "h + of_nat n = h + of_nat i"
    by (auto simp: window_def)
  from n i have "n = i" by (intro window_inj [of n i h]) auto
  with i show False by simp
qed

lemma window_shift: "window h (Suc n) = insert h (window (h + 1) n)"
proof -
  have "{..<Suc n} = insert 0 (Suc ` {..<n})"
    by (auto simp: lessThan_Suc_eq_insert_0)
  then have "window h (Suc n) = insert (h + of_nat 0) ((\<lambda>i. h + of_nat i) ` Suc ` {..<n})"
    by (simp add: window_def)
  also have "(\<lambda>i. h + of_nat i) ` Suc ` {..<n} = window (h + 1) n"
    by (simp add: window_def image_image ac_simps)
  finally show ?thesis by simp
qed

lemma window_bottom_notin: "n < 1000 \<Longrightarrow> h \<notin> window (h + 1) n"
proof
  assume n: "n < 1000" and "h \<in> window (h + 1) n"
  then obtain i where i: "i < n" "h = h + 1 + of_nat i"
    by (auto simp: window_def)
  then have "h + of_nat 0 = h + of_nat (Suc i)" by (simp add: ac_simps)
  with n i have "0 = Suc i" by (intro window_inj [of 0 "Suc i" h]) auto
  then show False by simp
qed

section \<open>The invariant of the request table holds in every reachable pool\<close>

lemma unfilled_subset: "unfilled s \<subseteq> dom (requests s)"
  by (auto simp: unfilled_def)

lemma pool_inv_n_finite: "pool_inv_n n s \<Longrightarrow> finite (unfilled s)"
  using unfilled_subset [of s] by (auto simp: pool_inv_n_def intro: finite_subset finite_window)

lemma pool_inv_n_card: "pool_inv_n n s \<Longrightarrow> card (unfilled s) \<le> n"
proof -
  assume a: "pool_inv_n n s"
  then have "card (unfilled s) \<le> card (window (height s) n)"
    using unfilled_subset [of s] by (auto simp: pool_inv_n_def intro!: card_mono finite_window)
  with a show ?thesis by (simp add: pool_inv_n_def card_window)
qed

lemma runner_ok_height: "height s' = height s \<Longrightarrow> runner_ok s' n = runner_ok s n"
proof (rule ext)
  fix pc
  assume "height s' = height s"
  then show "runner_ok s' n pc = runner_ok s n pc" by (cases pc) simp_all
qed

lemma pool_inv_n_core: "core s' = core s \<Longrightarrow> pool_inv_n n s \<Longrightarrow> pool_inv_n n s'"
proof -
  assume c: "core s' = core s" and a: "pool_inv_n n s"
  have "runner_ok s' n pc = runner_ok s n pc" for pc
    using c by (cases pc) (simp_all add: core_def)
  then have "list_all (runner_ok s' n) (runners s') = list_all (runner_ok s n) (runners s)"
    using c by (simp add: core_def list_all_iff)
  with a c show ?thesis by (simp add: pool_inv_n_def core_def)
qed

lemma pool_inv_core: "core s' = core s \<Longrightarrow> pool_inv s \<Longrightarrow> pool_inv s'"
  by (auto simp: pool_inv_def intro: pool_inv_n_core)

lemma pool_inv_init: "pool_inv (NewBlockPool start)"
  by (auto simp: pool_inv_def pool_inv_n_def NewBlockPool_def unfilled_def window_def intro!: exI [of _ 0])

lemma core_SetPeerHeight: "core (SetPeerHeight pid h s) = core s"
  by (simp add: core_def SetPeerHeight_def unfilled_def split: option.splits)

lemma core_RemovePeer: "core (RemovePeer pid s) = core s"
  by (simp add: core_def RemovePeer_def unfilled_def)

lemma core_decrPeer: "core (decrPeer pid s) = core s"
  by (simp add: core_def decrPeer_def unfilled_def split: option.splits)

lemma core_sendRequest_write: "core (sendRequest_write h pid s) = core s"
  by (simp add: core_def sendRequest_write_def unfilled_def)

lemma core_sendTimeout_write: "core (sendTimeout_write pid s) = core s"
  by (simp add: core_def sendTimeout_write_def unfilled_def)

lemma core_pickIncrAvailablePeer: "core (snd (pickIncrAvailablePeer order m s)) = core s"
  by (simp add: core_def pickIncrAvailablePeer_def unfilled_def split: prod.splits)

lemma core_setPeerForRequest: "core (setPeerForRequest h pid s) = core s"
proof (cases "requests s h")
  case None
  then show ?thesis by (simp add: setPeerForRequest_def)
next
  case (Some r)
  have "unfilled (setPeerForRequest h pid s) = unfilled s"
    using Some by (auto simp: setPeerForRequest_def unfilled_def)
  moreover have "dom (requests (setPeerForRequest h pid s)) = dom (requests s)"
    using Some by (auto simp: setPeerForRequest_def)
  ultimately show ?thesis using Some by (simp add: core_def setPeerForRequest_def)
qed

lemma core_pick_eq: "pickIncrAvailablePeer order m s = (r, s') \<Longrightarrow> core s' = core s"
  using core_pickIncrAvailablePeer [of order m s] by simp

lemma core_routine_step: "core (snd (routine_step order h pc s)) = core s"
  by (cases pc)
     (auto simp: core_setPeerForRequest core_sendRequest_write core_decrPeer core_RemovePeer
        core_sendTimeout_write hasBlock_def GetStatus_def
        dest: core_pick_eq split: prod.splits option.splits)

lemma core_routines_update: "core (s\<lparr>routines := rs\<rparr>) = core s"
  by (simp add: core_def unfilled_def)

lemma core_running_update: "core (s\<lparr>running := r\<rparr>) = core s"
  by (simp add: core_def unfilled_def)

lemma pool_inv_AddBlock: "pool_inv s \<Longrightarrow> pool_inv (AddBlock b pid s)"
proof (cases "requests s (Height b)")
  case None
  assume "pool_inv s"
  with None show ?thesis by (simp add: AddBlock_def)
next
  case (Some r)
  assume inv: "pool_inv s"
  show ?thesis
  proof (cases "peerId r = pid \<and> block r = None")
    case False
    with Some inv show ?thesis by (auto simp: AddBlock_def)
  next
    case True
    define s' where "s' = AddBlock b pid s"
    have s': "s' = s\<lparr>requests := (requests s)(Height b \<mapsto> r\<lparr>block := Some b\<rparr>),
                     numPending := numPending s - 1\<rparr>"
      using Some True by (simp add: s'_def AddBlock_def)
    from inv obtain n where n: "pool_inv_n n s" by (auto simp: pool_inv_def)
    have mem: "Height b \<in> unfilled s" using Some True by (simp add: unfilled_def)
    have unf: "unfilled s' = unfilled s - {Height b}"
      by (auto simp: s' unfilled_def)
    have fin: "finite (unfilled s)" using n by (rule pool_inv_n_finite)
    have pos: "0 < card (unfilled s)" using mem fin by (auto simp: card_gt_0_iff)
    have card: "card (unfilled s') = card (unfilled s) - 1"
      using mem fin by (simp add: unf)
    have dom: "dom (requests s') = dom (requests s)"
      using Some by (auto simp: s')
    have ok: "runner_ok s' n = runner_ok s n"
      by (rule runner_ok_height) (simp add: s')
    have "pool_inv_n n s'"
      using n pos by (simp add: pool_inv_n_def dom card of_nat_pred32 ok) (simp add: s')
    then show ?thesis by (auto simp: pool_inv_def s'_def)
  qed
qed

lemma pool_inv_PopRequest: "pool_inv s \<Longrightarrow> PopRequest s = Inr s' \<Longrightarrow> pool_inv s'"
proof -
  assume inv: "pool_inv s" and pop: "PopRequest s = Inr s'"
  from pop obtain r b where r: "requests s (height s) = Some r" "block r = Some b"
    and s': "s' = s\<lparr>requests := (requests s)(height s := None), height := height s + 1,
                     numTotal := numTotal s - 1\<rparr>"
    by (auto simp: PopRequest_def split: option.splits)
  from inv obtain n where n: "pool_inv_n n s" by (auto simp: pool_inv_def)
  have "height s \<in> window (height s) n" using n r by (auto simp: pool_inv_n_def)
  then have pos: "0 < n" by (auto simp: window_def)
  then obtain m where m: "n = Suc m" by (cases n) auto
  have m100: "m < 100" using n m by (simp add: pool_inv_n_def)
  have "dom (requests s') = window (height s) (Suc m) - {height s}"
    using n m by (simp add: s' pool_inv_n_def)
  also have "\<dots> = window (height s + 1) m"
    using window_bottom_notin [of m "height s"] m100 by (simp add: window_shift)
  finally have dom: "dom (requests s') = window (height s') m" by (simp add: s')
  have unf: "unfilled s' = unfilled s"
    using r by (auto simp: s' unfilled_def)
  have ok: "runner_ok s n pc \<Longrightarrow> runner_ok s' m pc" for pc
    using m by (cases pc) (simp_all add: s' ac_simps)
  have "list_all (runner_ok s' m) (runners s')"
    using n ok by (auto simp: pool_inv_n_def list_all_iff s')
  then have "pool_inv_n m s'"
    using n m dom unf by (simp add: pool_inv_n_def) (simp add: s')
  then show ?thesis by (auto simp: pool_inv_def)
qed

lemma pool_inv_RedoRequest: "pool_inv s \<Longrightarrow> RedoRequest h s = Inr s' \<Longrightarrow> pool_inv s'"
proof -
  assume inv: "pool_inv s" and redo: "RedoRequest h s = Inr s'"
  from redo obtain r b where r: "requests s h = Some r" "block r = Some b"
    and s': "s' = s\<lparr>peers := (peers s)(peerId r := None),
                     requests := (requests s)(h \<mapsto> r\<lparr>block := None, peerId := ''''\<rparr>),
                     numPending := numPending s + 1,
                     routines := routines s @ [\<lparr>r_height = h, r_pc = AtIsRunning\<rparr>]\<rparr>"
    by (auto simp: RedoRequest_def RemovePeer_def go_requestRoutine_def Let_def split: option.splits)
  from inv obtain n where n: "pool_inv_n n s" by (auto simp: pool_inv_def)
  have notin: "h \<notin> unfilled s" using r by (simp add: unfilled_def)
  have unf: "unfilled s' = insert h (unfilled s)"
    by (auto simp: s' unfilled_def)
  have fin: "finite (unfilled s)" using n by (rule pool_inv_n_finite)
  have card: "card (unfilled s') = Suc (card (unfilled s))"
    using notin fin by (simp add: unf)
  have dom: "dom (requests s') = dom (requests s)"
    using r by (auto simp: s')
  have ok: "runner_ok s' n = runner_ok s n"
    by (rule runner_ok_height) (simp add: s')
  have "pool_inv_n n s'"
    using n by (simp add: pool_inv_n_def dom card ok) (simp add: s')
  then show ?thesis by (auto simp: pool_inv_def)
qed

lemma pool_inv_n_runners:
  "pool_inv_n n s \<Longrightarrow> runner_ok s n pc' \<Longrightarrow> pool_inv_n n (s\<lparr>runners := [pc']\<rparr>)"
proof -
  assume n: "pool_inv_n n s" and ok: "runner_ok s n pc'"
  have "runner_ok (s\<lparr>runners := [pc']\<rparr>) n = runner_ok s n"
    by (rule runner_ok_height) simp
  moreover have "unfilled (s\<lparr>runners := [pc']\<rparr>) = unfilled s"
    by (simp add: unfilled_def)
  ultimately show ?thesis using n ok by (simp add: pool_inv_n_def)
qed

lemma pool_inv_makeRequest:
  assumes n: "pool_inv_n n s" and lt: "n < 100" and h: "h = height s + of_nat n"
    and mk: "makeRequest h s = Inr s'"
  shows "pool_inv_n (Suc n) (s'\<lparr>runners := [RunCheck]\<rparr>)"
proof -
  have nx: "height s + scast (numTotal s) = h"
    using n lt h by (simp add: pool_inv_n_def scast_of_nat32)
  have s': "s' = s\<lparr>requests := (requests s)(h \<mapsto> \<lparr>req_height = h, peerId = '''', block = None\<rparr>),
                   numTotal := numTotal s + 1, numPending := numPending s + 1,
                   routines := routines s @ [\<lparr>r_height = h, r_pc = AtIsRunning\<rparr>]\<rparr>"
    using mk nx by (simp add: makeRequest_def Let_def go_requestRoutine_def)
  have notdom: "h \<notin> dom (requests s)"
    using n lt h window_top_notin [of n "height s"] by (simp add: pool_inv_n_def)
  then have notin: "h \<notin> unfilled s" using unfilled_subset [of s] by auto
  define t where "t = s'\<lparr>runners := [RunCheck]\<rparr>"
  have unf: "unfilled t = insert h (unfilled s)"
    using notdom by (auto simp: t_def s' unfilled_def)
  have fin: "finite (unfilled s)" using n by (rule pool_inv_n_finite)
  have card: "card (unfilled t) = Suc (card (unfilled s))"
    using notin fin by (simp add: unf)
  have dom: "dom (requests t) = window (height s) (Suc n)"
    using n by (simp add: t_def s' pool_inv_n_def window_Suc h)
  have "pool_inv_n (Suc n) t"
    using n lt by (simp add: pool_inv_n_def dom card) (simp add: t_def s')
  then show ?thesis by (simp add: t_def)
qed

lemma pool_inv_run_step:
  assumes inv: "pool_inv s" and rs: "runners s = [pc]" and st: "run_step pc s = Inr (pc', s')"
  shows "pool_inv (s'\<lparr>runners := [pc']\<rparr>)"
proof -
  from inv obtain n where n: "pool_inv_n n s" by (auto simp: pool_inv_def)
  have n100: "n \<le> 100" and tot: "numTotal s = of_nat n" and ok: "runner_ok s n pc"
    using n rs by (simp_all add: pool_inv_n_def)
  show ?thesis
  proof (cases pc)
    case RunCheck
    then have "s' = s" and "runner_ok s n pc'"
      using st by (auto split: if_splits)
    then show ?thesis using n pool_inv_n_runners by (auto simp: pool_inv_def)
  next
    case RunStatus
    then have "s' = s" and "runner_ok s n pc'"
      using st n100 tot
      by (auto simp: GetStatus_def maxTotalRequests_def sint_of_nat32 split: if_splits)
    then show ?thesis using n pool_inv_n_runners by (auto simp: pool_inv_def)
  next
    case RunNext
    then have "s' = s" and "runner_ok s n pc'"
      using st n100 tot ok by (auto simp: nextHeight_def scast_of_nat32)
    then show ?thesis using n pool_inv_n_runners by (auto simp: pool_inv_def)
  next
    case (RunMake h)
    then obtain s1 where mk: "makeRequest h s = Inr s1" and eq: "s' = s1" "pc' = RunCheck"
      using st by (auto split: sum.splits)
    have "pool_inv_n (Suc n) (s1\<lparr>runners := [RunCheck]\<rparr>)"
      using n ok RunMake mk by (intro pool_inv_makeRequest [of n s h]) auto
    then show ?thesis using eq by (auto simp: pool_inv_def)
  next
    case RunExited
    then have "s' = s" and "runner_ok s n pc'"
      using st by auto
    then show ?thesis using n pool_inv_n_runners by (auto simp: pool_inv_def)
  qed
qed

lemma pool_inv_Start: "pool_inv s \<Longrightarrow> \<not> (running s = 0 \<and> runners s \<noteq> []) \<Longrightarrow> pool_inv (Start s)"
proof -
  assume inv: "pool_inv s" and a: "\<not> (running s = 0 \<and> runners s \<noteq> [])"
  show ?thesis
  proof (cases "running s = 0")
    case False
    with inv show ?thesis by (simp add: Start_def)
  next
    case True
    with a have "Start s = (s\<lparr>running := 1\<rparr>)\<lparr>runners := [RunCheck]\<rparr>"
      by (simp add: Start_def)
    moreover from inv obtain n where "pool_inv_n n s" by (auto simp: pool_inv_def)
    then have "pool_inv_n n (s\<lparr>running := 1\<rparr>)"
      by (rule pool_inv_n_core [rotated]) (simp add: core_running_update)
    then have "pool_inv_n n ((s\<lparr>running := 1\<rparr>)\<lparr>runners := [RunCheck]\<rparr>)"
      by (rule pool_inv_n_runners) simp
    ultimately show ?thesis by (auto simp: pool_inv_def)
  qed
qed

lemma pool_inv_Stop: "pool_inv s \<Longrightarrow> pool_inv (Stop s)"
  by (auto simp: Stop_def intro: pool_inv_core [rotated] simp: core_running_update)

lemma pool_inv_exec: "pool_inv s \<Longrightarrow> exec a s = Some s' \<Longrightarrow> pool_inv s'"
proof (cases a)
  case CallStart
  assume "pool_inv s" "exec a s = Some s'"
  with CallStart show ?thesis by (auto split: if_splits intro: pool_inv_Start)
next
  case CallStop
  assume "pool_inv s" "exec a s = Some s'"
  with CallStop show ?thesis by (auto intro: pool_inv_Stop)
next
  case (CallSetPeerHeight pid h)
  assume "pool_inv s" "exec a s = Some s'"
  with CallSetPeerHeight show ?thesis
    by (auto intro: pool_inv_core [rotated] simp: core_SetPeerHeight)
next
  case (CallRemovePeer pid)
  assume "pool_inv s" "exec a s = Some s'"
  with CallRemovePeer show ?thesis
    by (auto intro: pool_inv_core [rotated] simp: core_RemovePeer)
next
  case (CallAddBlock b pid)
  assume "pool_inv s" "exec a s = Some s'"
  with CallAddBlock show ?thesis by (auto intro: pool_inv_AddBlock)
next
  case CallPopRequest
  assume "pool_inv s" "exec a s = Some s'"
  with CallPopRequest show ?thesis by (auto split: sum.splits intro: pool_inv_PopRequest)
next
  case (CallRedoRequest h)
  assume "pool_inv s" "exec a s = Some s'"
  with CallRedoRequest show ?thesis by (auto split: sum.splits intro: pool_inv_RedoRequest)
next
  case (StepRun i)
  assume inv: "pool_inv s" and ex: "exec a s = Some s'"
  from ex StepRun obtain pc' s1 where i: "i < length (runners s)"
    and st: "run_step (runners s ! i) s = Inr (pc', s1)"
    and s': "s' = s1\<lparr>runners := (runners s1)[i := pc']\<rparr>"
    by (auto split: if_splits sum.splits)
  from inv have "length (runners s) \<le> 1" by (auto simp: pool_inv_def pool_inv_n_def)
  with i obtain pc where rs: "runners s = [pc]" and i0: "i = 0"
    by (cases "runners s") auto
  have inv1: "pool_inv (s1\<lparr>runners := [pc']\<rparr>)"
    using inv rs st i0 by (intro pool_inv_run_step [of s pc]) auto
  have "runners s1 = [pc]"
    using st rs i0
    by (cases pc) (auto simp: GetStatus_def nextHeight_def makeRequest_def Let_def
        go_requestRoutine_def split: if_splits)
  then show ?thesis using inv1 i0 by (simp add: s')
next
  case (StepRoutine i order)
  assume inv: "pool_inv s" and ex: "exec a s = Some s'"
  from ex StepRoutine obtain pc' s1 where
    st: "routine_step order (r_height (routines s ! i)) (r_pc (routines s ! i)) s = (pc', s1)"
    and s': "s' = s1\<lparr>routines := (routines s1)[i := (routines s1 ! i)\<lparr>r_pc := pc'\<rparr>]\<rparr>"
    by (auto split: if_splits prod.splits)
  have "core s1 = core s"
    using core_routine_step [of order "r_height (routines s ! i)" "r_pc (routines s ! i)" s] st
    by simp
  then have "core s' = core s" by (simp add: s' core_routines_update)
  then show ?thesis using inv by (rule pool_inv_core)
qed

lemma reachable_pool_inv: "reachable s \<Longrightarrow> pool_inv s"
  by (induction rule: reachable.induct) (auto intro: pool_inv_init pool_inv_exec)

lemma pool_inv_bounds:
  "pool_inv s \<Longrightarrow> 0 \<le> sint (numPending s) \<and> sint (numPending s) \<le> sint (numTotal s) \<and> sint (numTotal s) \<le> 100"
proof -
  assume "pool_inv s"
  then obtain n where n: "pool_inv_n n s" by (auto simp: pool_inv_def)
  from n have c: "card (unfilled s) \<le> n" by (rule pool_inv_n_card)
  from n have "n \<le> 100" "numTotal s = of_nat n" "numPending s = of_nat (card (unfilled s))"
    by (simp_all add: pool_inv_n_def)
  with c show ?thesis by (simp add: sint_of_nat32)
qed

lemma pool_inv_counts:
  "pool_inv s \<Longrightarrow> sint (numPending s) = int (card (unfilled s)) \<and>
                   sint (numTotal s) = int (card (dom (requests s)))"
proof -
  assume "pool_inv s"
  then obtain n where n: "pool_inv_n n s" by (auto simp: pool_inv_def)
  from n have c: "card (unfilled s) \<le> n" by (rule pool_inv_n_card)
  from n have "n \<le> 100" "numTotal s = of_nat n" "numPending s = of_nat (card (unfilled s))"
    "dom (requests s) = window (height s) n"
    by (simp_all add: pool_inv_n_def)
  with c show ?thesis by (simp add: sint_of_nat32 card_window)
qed

lemma reachable_pending_pos:
  "reachable s \<Longrightarrow> requests s h = Some r \<Longrightarrow> block r = None \<Longrightarrow> 0 < sint (numPending s)"
proof -
  assume a: "reachable s" "requests s h = Some r" "block r = None"
  then obtain n where n: "pool_inv_n n s" using reachable_pool_inv by (auto simp: pool_inv_def)
  have "h \<in> unfilled s" using a by (simp add: unfilled_def)
  then have "0 < card (unfilled s)" using pool_inv_n_finite [OF n] by (auto simp: card_gt_0_iff)
  moreover have "card (unfilled s) \<le> 100" using pool_inv_n_card [OF n] n by (simp add: pool_inv_n_def)
  ultimately show ?thesis using n by (simp add: pool_inv_n_def sint_of_nat32)
qed


lemma reachable_total_pos:
  "reachable s \<Longrightarrow> requests s h = Some r \<Longrightarrow> 0 < sint (numTotal s)"
proof -
  assume a: "reachable s" "requests s h = Some r"
  then obtain n where n: "pool_inv_n n s" using reachable_pool_inv by (auto simp: pool_inv_def)
  have "h \<in> window (height s) n" using a n by (auto simp: pool_inv_n_def)
  then have "0 < n" by (auto simp: window_def)
  then show ?thesis using n by (simp add: pool_inv_n_def sint_of_nat32)
qed

section \<open>Running traces\<close>

lemma exec_all_append: "exec_all (as @ bs) s = (case exec_all as s of None \<Rightarrow> None | Some s' \<Rightarrow> exec_all bs s')"
  by (induction as arbitrary: s) (auto split: option.splits)

lemma exec_all_reachable: "reachable s \<Longrightarrow> exec_all as s = Some s' \<Longrightarrow> reachable s'"
  by (induction as arbitrary: s) (auto split: option.splits intro: reachable_step)

lemmas eval_simps = NewBlockPool_def Start_def Stop_def SetPeerHeight_def RemovePeer_def AddBlock_def
  PopRequest_def RedoRequest_def GetStatus_def nextHeight_def makeRequest_def go_requestRoutine_def
  IsRunning_def pickIncrAvailablePeer_def setPeerForRequest_def sendRequest_write_def
  sendTimeout_write_def
  hasBlock_def decrPeer_def maxTries_def maxPendingRequests_def maxTotalRequests_def
  maxRequestsPerPeer_def Let_def admit_def assign_def blk_def

lemma exec_trace_assigned: "exec_all trace_assigned (NewBlockPool 0) = Some s_assigned"
  by (simp add: trace_assigned_def s_assigned_def eval_simps)

lemma reachable_s_assigned: "reachable s_assigned"
  using exec_all_reachable [OF reachable_init exec_trace_assigned] .

lemma exec_s_filled: "exec (CallAddBlock (blk 0) ''A'') s_assigned = Some s_filled"
  by (simp add: s_assigned_def s_filled_def eval_simps)

lemma reachable_s_filled: "reachable s_filled"
  using reachable_step [OF reachable_s_assigned exec_s_filled] .

section \<open>AddBlock (claim C1)\<close>

lemma AddBlock_changes: "(AddBlock b pid s \<noteq> s) = add_accepted b pid s"
proof (cases "add_accepted b pid s")
  case False
  then show ?thesis by (auto simp: AddBlock_def add_accepted_def split: option.splits)
next
  case True
  then obtain r where r: "requests s (Height b) = Some r" "peerId r = pid" "block r = None"
    by (auto simp: add_accepted_def split: option.splits)
  then have "requests (AddBlock b pid s) (Height b) = Some (r\<lparr>block := Some b\<rparr>)"
    by (simp add: AddBlock_def)
  with r have "requests (AddBlock b pid s) (Height b) \<noteq> requests s (Height b)"
    by (metis bpRequest.select_convs(3) bpRequest.surjective bpRequest.update_convs(3) option.distinct(1) option.inject)
  then have "AddBlock b pid s \<noteq> s" by auto
  with True show ?thesis by simp
qed

text \<open>
  Claim C1. \<^verbatim>\<open>AddBlock(block, peerId)\<close> accepts the block exactly when a request at the
  block's height exists, is assigned to \<open>peerId\<close> and has no block: it then stores the block
  in the request and lowers \<open>numPending\<close> by one (in \<^verbatim>\<open>int32\<close> arithmetic, and as a signed
  number in every reachable pool). In every other case the pool is left as it was. A second
  call for the same height and peer therefore changes nothing, whatever the first did.
\<close>

theorem AddBlock_fills_once:
  "(add_accepted b pid s \<longrightarrow>
      (\<exists>r. requests s (Height b) = Some r \<and> peerId r = pid \<and> block r = None \<and>
           AddBlock b pid s =
             s\<lparr>requests := (requests s)(Height b \<mapsto> r\<lparr>block := Some b\<rparr>),
               numPending := numPending s - 1\<rparr>)) \<and>
   (\<not> add_accepted b pid s \<longrightarrow> AddBlock b pid s = s) \<and>
   ((AddBlock b pid s \<noteq> s) = add_accepted b pid s) \<and>
   (Height b' = Height b \<longrightarrow> AddBlock b' pid (AddBlock b pid s) = AddBlock b pid s) \<and>
   (reachable s \<and> add_accepted b pid s \<longrightarrow>
      sint (numPending (AddBlock b pid s)) = sint (numPending s) - 1)"
proof (intro conjI impI)
  assume "add_accepted b pid s"
  then show "\<exists>r. requests s (Height b) = Some r \<and> peerId r = pid \<and> block r = None \<and>
           AddBlock b pid s =
             s\<lparr>requests := (requests s)(Height b \<mapsto> r\<lparr>block := Some b\<rparr>),
               numPending := numPending s - 1\<rparr>"
    by (auto simp: AddBlock_def add_accepted_def split: option.splits)
next
  assume "\<not> add_accepted b pid s"
  then show "AddBlock b pid s = s"
    by (auto simp: AddBlock_def add_accepted_def split: option.splits)
next
  show "(AddBlock b pid s \<noteq> s) = add_accepted b pid s" by (rule AddBlock_changes)
next
  assume "Height b' = Height b"
  then show "AddBlock b' pid (AddBlock b pid s) = AddBlock b pid s"
    by (auto simp: AddBlock_def split: option.splits)
next
  assume a: "reachable s \<and> add_accepted b pid s"
  then obtain r where r: "requests s (Height b) = Some r" "peerId r = pid" "block r = None"
    by (auto simp: add_accepted_def split: option.splits)
  have "0 < sint (numPending s)" using a r reachable_pending_pos by blast
  then have "sint (numPending s - 1) = sint (numPending s) - 1" by (intro sint_pred32) simp
  then show "sint (numPending (AddBlock b pid s)) = sint (numPending s) - 1"
    using r by (simp add: AddBlock_def)
qed

theorem AddBlock_fills_once_witness:
  "reachable s_assigned \<and> add_accepted (blk 0) ''A'' s_assigned \<and>
   AddBlock (blk 0) ''A'' s_assigned = s_filled \<and>
   sint (numPending s_assigned) = 1 \<and> sint (numPending s_filled) = 0 \<and>
   \<not> add_accepted (blk 0) ''B'' s_assigned \<and> AddBlock (blk 0) ''B'' s_assigned = s_assigned \<and>
   Height \<lparr>Height = 0, Data = 7\<rparr> = Height (blk 0) \<and>
   AddBlock \<lparr>Height = 0, Data = 7\<rparr> ''A'' (AddBlock (blk 0) ''A'' s_assigned) = s_filled"
proof -
  have acc: "add_accepted (blk 0) ''A'' s_assigned"
    by (simp add: add_accepted_def s_assigned_def blk_def)
  have rej: "\<not> add_accepted (blk 0) ''B'' s_assigned"
    by (simp add: add_accepted_def s_assigned_def blk_def)
  have fill: "AddBlock (blk 0) ''A'' s_assigned = s_filled"
    by (simp add: s_assigned_def s_filled_def AddBlock_def blk_def)
  have hb: "Height \<lparr>Height = 0, Data = 7\<rparr> = Height (blk 0)" by (simp add: blk_def)
  note a = AddBlock_fills_once [of "blk 0" "''A''" s_assigned "\<lparr>Height = 0, Data = 7\<rparr>"]
  note b = AddBlock_fills_once [of "blk 0" "''B''" s_assigned "blk 0"]
  from a acc reachable_s_assigned hb
  have "sint (numPending (AddBlock (blk 0) ''A'' s_assigned)) = sint (numPending s_assigned) - 1"
    and "AddBlock \<lparr>Height = 0, Data = 7\<rparr> ''A'' (AddBlock (blk 0) ''A'' s_assigned) =
         AddBlock (blk 0) ''A'' s_assigned"
    by blast+
  moreover from b rej have "AddBlock (blk 0) ''B'' s_assigned = s_assigned" by blast
  moreover have "sint (numPending s_assigned) = 1" by (simp add: s_assigned_def)
  ultimately show ?thesis using acc rej fill hb reachable_s_assigned by simp
qed

section \<open>RedoRequest (claim C2)\<close>










section \<open>makeRequest (claim C3)\<close>

text \<open>
  Claim C3. The claim asks for a panic when \<open>h\<close> is not \<open>height + numTotal\<close>. The code has
  none: on a fresh pool at height 0, \<^verbatim>\<open>makeRequest(5)\<close> returns, with a request stored at 5
  and both counters still 0.
\<close>

theorem makeRequest_noncontiguous_counterexample:
  "5 \<noteq> height (NewBlockPool 0) + scast (numTotal (NewBlockPool 0)) \<and>
   makeRequest 5 (NewBlockPool 0) =
     Inr \<lparr>requests = [5 \<mapsto> \<lparr>req_height = 5, peerId = '''', block = None\<rparr>], height = 0,
          numPending = 0, numTotal = 0, peers = Map.empty, requestsCh = [], timeoutsCh = [],
          running = 0, runners = [], routines = [\<lparr>r_height = 5, r_pc = AtIsRunning\<rparr>]\<rparr>"
  by (simp add: makeRequest_def NewBlockPool_def go_requestRoutine_def Let_def)

text \<open>
  Claim C3, as the code has it. \<^verbatim>\<open>makeRequest(h)\<close> always returns: it stores an empty,
  unassigned request at \<open>h\<close> (over any request already there) and starts a routine for
  \<open>h\<close>; it raises \<open>numTotal\<close> and \<open>numPending\<close> by one exactly when \<open>h\<close> is
  \<open>height + numTotal\<close>, and leaves both unchanged otherwise.
\<close>

theorem makeRequest_inserts:
  "\<exists>s'. makeRequest h s = Inr s' \<and>
        requests s' = (requests s)(h \<mapsto> \<lparr>req_height = h, peerId = '''', block = None\<rparr>) \<and>
        numTotal s' = (if h = height s + scast (numTotal s) then numTotal s + 1 else numTotal s) \<and>
        numPending s' = (if h = height s + scast (numTotal s) then numPending s + 1 else numPending s) \<and>
        height s' = height s \<and> peers s' = peers s \<and>
        routines s' = routines s @ [\<lparr>r_height = h, r_pc = AtIsRunning\<rparr>]"
  by (auto simp: makeRequest_def go_requestRoutine_def Let_def)

section \<open>The bounds on numPending and numTotal (claim C4)\<close>

lemma reachable_no_redo_reachable: "reachable_no_redo s \<Longrightarrow> reachable s"
  by (induction rule: reachable_no_redo.induct) (auto intro: reachable.intros)

lemma pending_inv_core: "core s' = core s \<Longrightarrow> pending_inv s \<Longrightarrow> pending_inv s'"
  by (simp add: pending_inv_def core_def)

lemma pending_inv_init: "pending_inv (NewBlockPool start)"
  by (simp add: pending_inv_def NewBlockPool_def)

lemma pending_inv_AddBlock:
  assumes r: "reachable s" and p: "pending_inv s"
  shows "pending_inv (AddBlock b pid s)"
proof (cases "add_accepted b pid s")
  case False
  then have "AddBlock b pid s = s"
    by (auto simp: AddBlock_def add_accepted_def split: option.splits)
  with p show ?thesis by simp
next
  case True
  then obtain q where q: "requests s (Height b) = Some q" "peerId q = pid" "block q = None"
    by (auto simp: add_accepted_def split: option.splits)
  have "0 < sint (numPending s)" using r q reachable_pending_pos by blast
  then have "sint (numPending s - 1) = sint (numPending s) - 1" by (intro sint_pred32) simp
  then have "sint (numPending (AddBlock b pid s)) = sint (numPending s) - 1"
    and "runners (AddBlock b pid s) = runners s"
    using q by (simp_all add: AddBlock_def)
  with p show ?thesis by (auto simp: pending_inv_def list_all_iff)
qed

lemma pending_inv_PopRequest: "pending_inv s \<Longrightarrow> PopRequest s = Inr s' \<Longrightarrow> pending_inv s'"
  by (auto simp: PopRequest_def pending_inv_def split: option.splits)

lemma pending_inv_Start:
  "pending_inv s \<Longrightarrow> pending_inv (Start s)"
  by (auto simp: Start_def pending_inv_def)

lemma pending_inv_Stop: "pending_inv s \<Longrightarrow> pending_inv (Stop s)"
  by (auto simp: Stop_def pending_inv_def)

lemma pending_inv_run_step:
  assumes p: "pending_inv s" and rs: "runners s = [pc]" and st: "run_step pc s = Inr (pc', s')"
  shows "pending_inv (s'\<lparr>runners := [pc']\<rparr>)"
proof (cases pc)
  case RunCheck
  with st p show ?thesis by (auto simp: pending_inv_def split: if_splits)
next
  case RunStatus
  with st p show ?thesis
    by (auto simp: pending_inv_def GetStatus_def maxPendingRequests_def split: if_splits)
next
  case RunNext
  with st p rs show ?thesis by (auto simp: pending_inv_def nextHeight_def)
next
  case (RunMake h)
  with p rs have lt: "sint (numPending s) < 50" by (simp add: pending_inv_def)
  then have "sint (numPending s + 1) = sint (numPending s) + 1" by (intro sint_succ32) simp
  with lt have "sint (numPending s + 1) \<le> 50" by simp
  with RunMake st p show ?thesis
    by (auto simp: pending_inv_def makeRequest_def Let_def go_requestRoutine_def split: if_splits)
next
  case RunExited
  with st p show ?thesis by (auto simp: pending_inv_def)
qed

lemma pending_inv_exec:
  assumes r: "reachable s" and p: "pending_inv s" and nr: "\<not> is_redo a" and ex: "exec a s = Some s'"
  shows "pending_inv s'"
proof (cases a)
  case CallStart
  with ex p show ?thesis by (auto split: if_splits intro: pending_inv_Start)
next
  case CallStop
  with ex p show ?thesis by (auto intro: pending_inv_Stop)
next
  case (CallSetPeerHeight pid h)
  with ex p show ?thesis by (auto intro: pending_inv_core [rotated] simp: core_SetPeerHeight)
next
  case (CallRemovePeer pid)
  with ex p show ?thesis by (auto intro: pending_inv_core [rotated] simp: core_RemovePeer)
next
  case (CallAddBlock b pid)
  with ex p r show ?thesis by (auto intro: pending_inv_AddBlock)
next
  case CallPopRequest
  with ex p show ?thesis by (auto split: sum.splits intro: pending_inv_PopRequest)
next
  case (CallRedoRequest h)
  with nr show ?thesis by simp
next
  case (StepRun i)
  from ex StepRun obtain pc' s1 where i: "i < length (runners s)"
    and st: "run_step (runners s ! i) s = Inr (pc', s1)"
    and s': "s' = s1\<lparr>runners := (runners s1)[i := pc']\<rparr>"
    by (auto split: if_splits sum.splits)
  from r have "length (runners s) \<le> 1"
    using reachable_pool_inv by (auto simp: pool_inv_def pool_inv_n_def)
  with i obtain pc where rs: "runners s = [pc]" and i0: "i = 0"
    by (cases "runners s") auto
  have inv1: "pending_inv (s1\<lparr>runners := [pc']\<rparr>)"
    using p rs st i0 by (intro pending_inv_run_step [of s pc]) auto
  have "runners s1 = [pc]"
    using st rs i0
    by (cases pc) (auto simp: GetStatus_def nextHeight_def makeRequest_def Let_def
        go_requestRoutine_def split: if_splits)
  then show ?thesis using inv1 i0 by (simp add: s')
next
  case (StepRoutine i order)
  from ex StepRoutine obtain pc' s1 where
    st: "routine_step order (r_height (routines s ! i)) (r_pc (routines s ! i)) s = (pc', s1)"
    and s': "s' = s1\<lparr>routines := (routines s1)[i := (routines s1 ! i)\<lparr>r_pc := pc'\<rparr>]\<rparr>"
    by (auto split: if_splits prod.splits)
  have "core s1 = core s"
    using core_routine_step [of order "r_height (routines s ! i)" "r_pc (routines s ! i)" s] st
    by simp
  then have "core s' = core s" by (simp add: s' core_routines_update)
  then show ?thesis using p by (rule pending_inv_core)
qed

lemma reachable_no_redo_pending: "reachable_no_redo s \<Longrightarrow> pending_inv s"
proof (induction rule: reachable_no_redo.induct)
  case (no_redo_init start)
  show ?case by (rule pending_inv_init)
next
  case (no_redo_step s a s')
  then show ?case using reachable_no_redo_reachable pending_inv_exec by blast
qed

lemma exec_all_no_redo:
  "reachable_no_redo s \<Longrightarrow> list_all (\<lambda>a. \<not> is_redo a) as \<Longrightarrow> exec_all as s = Some s' \<Longrightarrow>
   reachable_no_redo s'"
  by (induction as arbitrary: s) (auto split: option.splits intro: no_redo_step)

lemma trace_full_run:
  "\<exists>s s'. exec_all trace_full (NewBlockPool 0) = Some s \<and>
          sint (numPending s) = 50 \<and> sint (numTotal s) = 52 \<and>
          exec (CallRedoRequest 0) s = Some s' \<and>
          sint (numPending s') = 51 \<and> sint (numTotal s') = 52"
  by (simp add: trace_full_def admit10_def eval_simps)

lemma trace_full_no_redo: "list_all (\<lambda>a. \<not> is_redo a) trace_full"
  by (simp add: trace_full_def admit10_def admit_def assign_def)

lemma s_full_facts:
  "exec_all trace_full (NewBlockPool 0) = Some s_full"
  "sint (numPending s_full) = 50" "sint (numTotal s_full) = 52"
  "exec (CallRedoRequest 0) s_full = Some s_over"
  "sint (numPending s_over) = 51" "sint (numTotal s_over) = 52"
  using trace_full_run by (auto simp: s_full_def s_over_def)

lemma reachable_no_redo_s_full: "reachable_no_redo s_full"
  using exec_all_no_redo [OF no_redo_init trace_full_no_redo s_full_facts(1)] .

lemma reachable_s_over: "reachable s_over"
  using reachable_step [OF reachable_no_redo_reachable [OF reachable_no_redo_s_full] s_full_facts(4)] .

text \<open>
  Claim C4. The claim bounds \<open>numPending\<close> by 50 in every reachable pool and after every
  redo. A started pool with one peer goes over: heights 0 and 1 are admitted, assigned and
  filled, fifty more heights are admitted (50 pending, 52 in the window, all bounds met),
  and then \<^verbatim>\<open>RedoRequest(0)\<close> raises \<open>numPending\<close> to 51.
\<close>

theorem redo_exceeds_pending_cap_counterexample:
  "exec_all trace_full (NewBlockPool 0) = Some s_full \<and>
   sint (numPending s_full) = 50 \<and> sint (numTotal s_full) = 52 \<and>
   exec (CallRedoRequest 0) s_full = Some s_over \<and>
   sint (numPending s_over) = 51 \<and> maxPendingRequests < sint (numPending s_over)"
  using s_full_facts by (simp add: maxPendingRequests_def)

text \<open>
  Claim C4, as the code has it. In every reachable pool \<open>numPending\<close> is the number of
  requests without a block, \<open>numTotal\<close> is the number of requests, and
  \<open>0 \<le> numPending \<le> numTotal \<le> 100\<close>. The bound of 50 on \<open>numPending\<close> is kept by
  admission, \<^verbatim>\<open>AddBlock\<close> and \<^verbatim>\<open>PopRequest\<close>: it holds in every pool reached without a
  call of \<^verbatim>\<open>RedoRequest\<close>. (A pool is started at most once; see \<open>exec\<close>.)
\<close>

theorem pending_total_bounds:
  "(reachable s \<longrightarrow>
      0 \<le> sint (numPending s) \<and> sint (numPending s) \<le> sint (numTotal s) \<and>
      sint (numTotal s) \<le> maxTotalRequests \<and>
      sint (numPending s) = int (card (unfilled s)) \<and>
      sint (numTotal s) = int (card (dom (requests s)))) \<and>
   (reachable_no_redo s \<longrightarrow> sint (numPending s) \<le> maxPendingRequests)"
proof -
  have a: "sint (numPending s) \<le> maxPendingRequests" if "reachable_no_redo s"
    using reachable_no_redo_pending [OF that]
    by (simp add: pending_inv_def maxPendingRequests_def)
  have b: "0 \<le> sint (numPending s) \<and> sint (numPending s) \<le> sint (numTotal s) \<and>
      sint (numTotal s) \<le> maxTotalRequests \<and>
      sint (numPending s) = int (card (unfilled s)) \<and>
      sint (numTotal s) = int (card (dom (requests s)))" if "reachable s"
    using pool_inv_bounds [OF reachable_pool_inv [OF that]]
      pool_inv_counts [OF reachable_pool_inv [OF that]]
    by (simp add: maxTotalRequests_def)
  from a b show ?thesis by blast
qed

theorem pending_total_bounds_witness:
  "reachable s_over \<and> sint (numPending s_over) = 51 \<and> sint (numTotal s_over) = 52 \<and>
   int (card (unfilled s_over)) = 51 \<and> int (card (dom (requests s_over))) = 52 \<and>
   reachable_no_redo s_full \<and> sint (numPending s_full) = 50 \<and>
   sint (numPending s_full) \<le> maxPendingRequests"
  using pending_total_bounds [of s_over] pending_total_bounds [of s_full]
    reachable_s_over reachable_no_redo_s_full s_full_facts
  by simp

section \<open>PopRequest (claim C5)\<close>

text \<open>
  Claim C5. With a request at \<open>height\<close> that holds a block, \<^verbatim>\<open>PopRequest\<close> deletes exactly that
  request, advances \<open>height\<close> by one (as a \<^verbatim>\<open>uint\<close>) and lowers \<open>numTotal\<close> by one (as an
  \<^verbatim>\<open>int32\<close>, and as a signed number in every reachable pool); \<open>numPending\<close> and the peers
  stay as they were. With no request at \<open>height\<close>, or one without a block, it panics before
  it changes anything.
\<close>

theorem PopRequest_removes_base:
  "(\<forall>r b. requests s (height s) = Some r \<and> block r = Some b \<longrightarrow>
      (\<exists>s'. PopRequest s = Inr s' \<and>
            requests s' = (requests s)(height s := None) \<and>
            height s' = height s + 1 \<and>
            numTotal s' = numTotal s - 1 \<and>
            numPending s' = numPending s \<and>
            peers s' = peers s \<and>
            (reachable s \<longrightarrow> sint (numTotal s') = sint (numTotal s) - 1))) \<and>
   (requests s (height s) = None \<or> (\<exists>r. requests s (height s) = Some r \<and> block r = None) \<longrightarrow>
      PopRequest s = Inl (Panic ''PopRequest() requires a valid block'', s))"
proof (intro conjI allI impI)
  fix r b
  assume a: "requests s (height s) = Some r \<and> block r = Some b"
  have "reachable s \<Longrightarrow> sint (numTotal s - 1) = sint (numTotal s) - 1"
  proof -
    assume "reachable s"
    then have "0 < sint (numTotal s)" using a reachable_total_pos by blast
    then show ?thesis by (intro sint_pred32) simp
  qed
  with a show "\<exists>s'. PopRequest s = Inr s' \<and>
            requests s' = (requests s)(height s := None) \<and>
            height s' = height s + 1 \<and>
            numTotal s' = numTotal s - 1 \<and>
            numPending s' = numPending s \<and>
            peers s' = peers s \<and>
            (reachable s \<longrightarrow> sint (numTotal s') = sint (numTotal s) - 1)"
    by (simp add: PopRequest_def)
next
  assume "requests s (height s) = None \<or> (\<exists>r. requests s (height s) = Some r \<and> block r = None)"
  then show "PopRequest s = Inl (Panic ''PopRequest() requires a valid block'', s)"
    by (auto simp: PopRequest_def)
qed

theorem PopRequest_removes_base_witness:
  "requests s_filled (height s_filled) = Some \<lparr>req_height = 0, peerId = ''A'', block = Some (blk 0)\<rparr> \<and>
   reachable s_filled \<and>
   PopRequest s_filled = Inr s_popped \<and>
   sint (numTotal s_filled) = 1 \<and> sint (numTotal s_popped) = 0 \<and>
   requests (NewBlockPool 0) (height (NewBlockPool 0)) = None \<and>
   PopRequest (NewBlockPool 0) =
     Inl (Panic ''PopRequest() requires a valid block'', NewBlockPool 0) \<and>
   requests s_assigned (height s_assigned) = Some \<lparr>req_height = 0, peerId = ''A'', block = None\<rparr> \<and>
   PopRequest s_assigned = Inl (Panic ''PopRequest() requires a valid block'', s_assigned)"
proof -
  have f: "requests s_filled (height s_filled) =
      Some \<lparr>req_height = 0, peerId = ''A'', block = Some (blk 0)\<rparr>"
    by (simp add: s_filled_def)
  have n: "requests (NewBlockPool 0) (height (NewBlockPool 0)) = None"
    by (simp add: NewBlockPool_def)
  have u: "requests s_assigned (height s_assigned) =
      Some \<lparr>req_height = 0, peerId = ''A'', block = None\<rparr>"
    by (simp add: s_assigned_def)
  have p: "PopRequest s_filled = Inr s_popped"
    by (simp add: PopRequest_def s_filled_def s_popped_def)
  from PopRequest_removes_base [of s_filled] f reachable_s_filled
  obtain s' where "PopRequest s_filled = Inr s'"
    and "sint (numTotal s') = sint (numTotal s_filled) - 1"
    by auto
  with p have 1: "sint (numTotal s_popped) = sint (numTotal s_filled) - 1" by simp
  have t: "sint (numTotal s_filled) = 1" by (simp add: s_filled_def)
  from PopRequest_removes_base [of "NewBlockPool 0"] n
  have 2: "PopRequest (NewBlockPool 0) =
     Inl (Panic ''PopRequest() requires a valid block'', NewBlockPool 0)" by blast
  from PopRequest_removes_base [of s_assigned] u
  have 3: "PopRequest s_assigned = Inl (Panic ''PopRequest() requires a valid block'', s_assigned)"
    by simp
  show ?thesis using f n u p 1 t 2 3 reachable_s_filled by simp
qed

section \<open>pickIncrAvailablePeer (claim C6)\<close>

lemma pick_scan_Some:
  "pick_scan order m ps = (Some p, ps') \<Longrightarrow>
     \<exists>k q. k \<in> set order \<and> ps k = Some q \<and> available m q \<and>
           p = q\<lparr>numRequests := numRequests q + 1\<rparr> \<and> ps' = ps(k \<mapsto> p)"
proof (induction order)
  case Nil
  then show ?case by simp
next
  case (Cons k ks)
  show ?case
  proof (cases "ps k")
    case None
    with Cons show ?thesis by auto
  next
    case (Some q)
    show ?thesis
    proof (cases "available m q")
      case True
      with Some Cons.prems have "p = q\<lparr>numRequests := numRequests q + 1\<rparr>" "ps' = ps(k \<mapsto> p)"
        by (auto simp: available_def maxRequestsPerPeer_def Let_def not_less split: if_splits)
      with Some True show ?thesis
        by (intro exI [of _ k] exI [of _ q]) simp
    next
      case False
      with Some Cons.prems have "pick_scan ks m ps = (Some p, ps')"
        by (auto simp: available_def maxRequestsPerPeer_def Let_def not_less split: if_splits)
      with Cons.IH show ?thesis by auto
    qed
  qed
qed

lemma pick_scan_None:
  "\<forall>k q. ps k = Some q \<longrightarrow> \<not> available m q \<Longrightarrow> pick_scan order m ps = (None, ps)"
  by (induction order) (auto simp: available_def maxRequestsPerPeer_def not_less split: option.splits)

text \<open>
  Claim C6. Whatever the order of the iteration, a peer returned by
  \<^verbatim>\<open>pickIncrAvailablePeer(minHeight)\<close> was registered with a height of at least
  \<open>minHeight\<close> and fewer than 20 requests, and is returned and stored with its counter
  raised by one; when no registered peer meets both conditions the result is nil and the
  pool is unchanged; a peer with exactly 20 requests is left as it is.
\<close>

theorem pickIncrAvailablePeer_respects_cap:
  "(\<forall>p s'. pickIncrAvailablePeer order m s = (Some p, s') \<longrightarrow>
      (\<exists>k q. peers s k = Some q \<and> m \<le> peer_height q \<and> sint (numRequests q) < maxRequestsPerPeer \<and>
             p = q\<lparr>numRequests := numRequests q + 1\<rparr> \<and>
             sint (numRequests p) = sint (numRequests q) + 1 \<and>
             s' = s\<lparr>peers := (peers s)(k \<mapsto> p)\<rparr>)) \<and>
   ((\<forall>k q. peers s k = Some q \<longrightarrow> \<not> (m \<le> peer_height q \<and> sint (numRequests q) < maxRequestsPerPeer)) \<longrightarrow>
      pickIncrAvailablePeer order m s = (None, s)) \<and>
   (\<forall>k q. peers s k = Some q \<and> sint (numRequests q) = maxRequestsPerPeer \<longrightarrow>
      peers (snd (pickIncrAvailablePeer order m s)) k = Some q)"
proof (intro conjI allI impI)
  fix p s'
  assume a: "pickIncrAvailablePeer order m s = (Some p, s')"
  then obtain ps' where ps': "pick_scan order m (peers s) = (Some p, ps')" "s' = s\<lparr>peers := ps'\<rparr>"
    by (auto simp: pickIncrAvailablePeer_def split: prod.splits)
  from pick_scan_Some [OF ps'(1)] obtain k q where kq: "peers s k = Some q" "available m q"
    "p = q\<lparr>numRequests := numRequests q + 1\<rparr>" "ps' = (peers s)(k \<mapsto> p)"
    by blast
  have "sint (numRequests q + 1) = sint (numRequests q) + 1"
    using kq(2) by (intro sint_succ32) (simp add: available_def maxRequestsPerPeer_def)
  with kq ps' show "\<exists>k q. peers s k = Some q \<and> m \<le> peer_height q \<and> sint (numRequests q) < maxRequestsPerPeer \<and>
             p = q\<lparr>numRequests := numRequests q + 1\<rparr> \<and>
             sint (numRequests p) = sint (numRequests q) + 1 \<and>
             s' = s\<lparr>peers := (peers s)(k \<mapsto> p)\<rparr>"
    by (auto simp: available_def)
next
  assume "\<forall>k q. peers s k = Some q \<longrightarrow> \<not> (m \<le> peer_height q \<and> sint (numRequests q) < maxRequestsPerPeer)"
  then have "pick_scan order m (peers s) = (None, peers s)"
    by (intro pick_scan_None) (simp add: available_def)
  then show "pickIncrAvailablePeer order m s = (None, s)"
    by (simp add: pickIncrAvailablePeer_def)
next
  fix k q
  assume a: "peers s k = Some q \<and> sint (numRequests q) = maxRequestsPerPeer"
  obtain r ps' where r: "pick_scan order m (peers s) = (r, ps')" by (cases "pick_scan order m (peers s)")
  show "peers (snd (pickIncrAvailablePeer order m s)) k = Some q"
  proof (cases r)
    case None
    then have "ps' = peers s" using r by (induction order) (auto split: option.splits if_splits simp: Let_def)
    with a r show ?thesis by (simp add: pickIncrAvailablePeer_def)
  next
    case (Some p)
    with r pick_scan_Some [of order m "peers s" p ps'] obtain k' q' where
      kq: "peers s k' = Some q'" "available m q'" "ps' = (peers s)(k' \<mapsto> p)"
      by blast
    with a have "k' \<noteq> k" by (auto simp: available_def)
    with a r kq show ?thesis by (simp add: pickIncrAvailablePeer_def)
  qed
qed

theorem pickIncrAvailablePeer_respects_cap_witness:
  "pickIncrAvailablePeer [''A'', ''B''] 7 s_capped =
     (Some \<lparr>peer_id = ''B'', peer_height = 1000, numRequests = 4\<rparr>,
      s_capped\<lparr>peers := (peers s_capped)(''B'' \<mapsto> \<lparr>peer_id = ''B'', peer_height = 1000, numRequests = 4\<rparr>)\<rparr>) \<and>
   peers s_capped ''A'' = Some \<lparr>peer_id = ''A'', peer_height = 1000, numRequests = 20\<rparr> \<and>
   sint (numRequests \<lparr>peer_id = ''A'', peer_height = 1000, numRequests = 20\<rparr>) = maxRequestsPerPeer \<and>
   peers (snd (pickIncrAvailablePeer [''A'', ''B''] 7 s_capped)) ''A'' =
     Some \<lparr>peer_id = ''A'', peer_height = 1000, numRequests = 20\<rparr> \<and>
   (\<exists>k q. peers s_capped k = Some q \<and> (7::uint) \<le> peer_height q \<and> sint (numRequests q) < maxRequestsPerPeer \<and>
          \<lparr>peer_id = ''B'', peer_height = 1000, numRequests = 4\<rparr> = q\<lparr>numRequests := numRequests q + 1\<rparr>) \<and>
   pickIncrAvailablePeer [''A'', ''B''] 2000 s_capped = (None, s_capped)"
proof -
  note t = pickIncrAvailablePeer_respects_cap
  have e: "pickIncrAvailablePeer [''A'', ''B''] 7 s_capped =
     (Some \<lparr>peer_id = ''B'', peer_height = 1000, numRequests = 4\<rparr>,
      s_capped\<lparr>peers := (peers s_capped)(''B'' \<mapsto> \<lparr>peer_id = ''B'', peer_height = 1000, numRequests = 4\<rparr>)\<rparr>)"
    by (simp add: s_capped_def eval_simps)
  have a: "peers s_capped ''A'' = Some \<lparr>peer_id = ''A'', peer_height = 1000, numRequests = 20\<rparr>"
    "sint (numRequests \<lparr>peer_id = ''A'', peer_height = 1000, numRequests = 20\<rparr>) = maxRequestsPerPeer"
    by (simp_all add: s_capped_def maxRequestsPerPeer_def)
  from t [of "[''A'', ''B'']" 7 s_capped] e
  have 1: "\<exists>k q. peers s_capped k = Some q \<and> (7::uint) \<le> peer_height q \<and> sint (numRequests q) < maxRequestsPerPeer \<and>
          \<lparr>peer_id = ''B'', peer_height = 1000, numRequests = 4\<rparr> = q\<lparr>numRequests := numRequests q + 1\<rparr>"
    by blast
  from t [of "[''A'', ''B'']" 7 s_capped] a
  have 2: "peers (snd (pickIncrAvailablePeer [''A'', ''B''] 7 s_capped)) ''A'' =
     Some \<lparr>peer_id = ''A'', peer_height = 1000, numRequests = 20\<rparr>"
    by blast
  have "\<forall>k q. peers s_capped k = Some q \<longrightarrow> \<not> ((2000::uint) \<le> peer_height q \<and> sint (numRequests q) < maxRequestsPerPeer)"
    by (auto simp: s_capped_def NewBlockPool_def split: if_splits)
  with t [of "[''A'', ''B'']" 2000 s_capped]
  have 3: "pickIncrAvailablePeer [''A'', ''B''] 2000 s_capped = (None, s_capped)" by blast
  from e a 1 2 3 show ?thesis by blast
qed

section \<open>PeekTwoBlocks (claim C7)\<close>

text \<open>
  Claim C7. The claim excludes the shape (absent, present). A started pool with one peer
  reaches it: two heights are admitted, the routine of height 1 picks the peer and asks it,
  and the peer's block for height 1 arrives before any block for height 0.
\<close>

theorem PeekTwoBlocks_gap_counterexample:
  "exec_all trace_gap (NewBlockPool 0) = Some s_gap \<and>
   fst (PeekTwoBlocks s_gap) = (None, Some (blk 1))"
  by (simp add: trace_gap_def s_gap_def PeekTwoBlocks_def eval_simps)

text \<open>
  Claim C7, as the code has it. \<^verbatim>\<open>PeekTwoBlocks\<close> returns at once and leaves the pool as it
  was; its first result is present exactly when the request at \<open>height\<close> holds a block and
  its second exactly when the request at \<open>height + 1\<close> does, each independently of the
  other.
\<close>

theorem PeekTwoBlocks_reads_both:
  "snd (PeekTwoBlocks s) = s \<and>
   (fst (fst (PeekTwoBlocks s)) \<noteq> None) = fst (hasBlock (height s) s) \<and>
   (snd (fst (PeekTwoBlocks s)) \<noteq> None) = fst (hasBlock (height s + 1) s) \<and>
   fst (fst (PeekTwoBlocks s)) = (case requests s (height s) of None \<Rightarrow> None | Some r \<Rightarrow> block r) \<and>
   snd (fst (PeekTwoBlocks s)) = (case requests s (height s + 1) of None \<Rightarrow> None | Some r \<Rightarrow> block r)"
  by (simp add: PeekTwoBlocks_def hasBlock_def Let_def split: option.splits)

section \<open>The counters of the peers (claim C8)\<close>

lemma pick_scan_cases:
  "pick_scan order m ps = (r, ps') \<Longrightarrow>
     (r = None \<and> ps' = ps) \<or>
     (\<exists>k q. ps k = Some q \<and> available m q \<and> r = Some (q\<lparr>numRequests := numRequests q + 1\<rparr>) \<and>
            ps' = ps(k \<mapsto> q\<lparr>numRequests := numRequests q + 1\<rparr>))"
proof (cases r)
  case None
  assume "pick_scan order m ps = (r, ps')"
  with None have "ps' = ps"
    by (induction order) (auto split: option.splits if_splits simp: Let_def)
  with None show ?thesis by simp
next
  case (Some p)
  assume "pick_scan order m ps = (r, ps')"
  with Some pick_scan_Some [of order m ps p ps'] show ?thesis by auto
qed

lemma pick_peers_cases:
  "peers (snd (pickIncrAvailablePeer order m s)) = peers s \<or>
   (\<exists>k q. peers s k = Some q \<and> available m q \<and>
          peers (snd (pickIncrAvailablePeer order m s)) =
            (peers s)(k \<mapsto> q\<lparr>numRequests := numRequests q + 1\<rparr>))"
proof -
  obtain r ps' where r: "pick_scan order m (peers s) = (r, ps')"
    by (cases "pick_scan order m (peers s)")
  from pick_scan_cases [OF r] r show ?thesis
    by (auto simp: pickIncrAvailablePeer_def)
qed

lemma under_cap_pick: "under_cap s \<Longrightarrow> under_cap (snd (pickIncrAvailablePeer order m s))"
proof -
  assume u: "under_cap s"
  from pick_peers_cases [of order m s] show ?thesis
  proof
    assume "peers (snd (pickIncrAvailablePeer order m s)) = peers s"
    with u show ?thesis by (simp add: under_cap_def)
  next
    assume "\<exists>k q. peers s k = Some q \<and> available m q \<and>
          peers (snd (pickIncrAvailablePeer order m s)) =
            (peers s)(k \<mapsto> q\<lparr>numRequests := numRequests q + 1\<rparr>)"
    then obtain k q where kq: "peers s k = Some q" "available m q"
      "peers (snd (pickIncrAvailablePeer order m s)) = (peers s)(k \<mapsto> q\<lparr>numRequests := numRequests q + 1\<rparr>)"
      by blast
    have "sint (numRequests q + 1) = sint (numRequests q) + 1"
      using kq(2) by (intro sint_succ32) (simp add: available_def maxRequestsPerPeer_def)
    with kq u show ?thesis
      by (auto simp: under_cap_def available_def maxRequestsPerPeer_def)
  qed
qed

lemma not_negative_pick: "not_negative s \<Longrightarrow> not_negative (snd (pickIncrAvailablePeer order m s))"
proof -
  assume u: "not_negative s"
  from pick_peers_cases [of order m s] show ?thesis
  proof
    assume "peers (snd (pickIncrAvailablePeer order m s)) = peers s"
    with u show ?thesis by (simp add: not_negative_def)
  next
    assume "\<exists>k q. peers s k = Some q \<and> available m q \<and>
          peers (snd (pickIncrAvailablePeer order m s)) =
            (peers s)(k \<mapsto> q\<lparr>numRequests := numRequests q + 1\<rparr>)"
    then obtain k q where kq: "peers s k = Some q" "available m q"
      "peers (snd (pickIncrAvailablePeer order m s)) = (peers s)(k \<mapsto> q\<lparr>numRequests := numRequests q + 1\<rparr>)"
      by blast
    have "sint (numRequests q + 1) = sint (numRequests q) + 1"
      using kq(2) by (intro sint_succ32) (simp add: available_def maxRequestsPerPeer_def)
    moreover have "0 \<le> sint (numRequests q)" using u kq(1) by (auto simp: not_negative_def)
    ultimately show ?thesis using kq u
      by (auto simp: not_negative_def)
  qed
qed

text \<open>
  Claim C8. The claim keeps every counter at 0 or above. A started pool with one peer goes
  below: the routine of height 0 picks the peer (counter 1) and sends its request, the
  peer's block arrives, the peer is removed and registers again (counter 0), and the
  routine, which finds its block, calls \<^verbatim>\<open>decrPeer\<close> for the id it holds: the counter of
  the registered peer is -1.
\<close>

theorem decrPeer_below_zero_counterexample:
  "exec_all trace_below (NewBlockPool 0) = Some s_below \<and>
   peers s_below ''A'' = Some \<lparr>peer_id = ''A'', peer_height = 5, numRequests = - 1\<rparr> \<and>
   sint (numRequests \<lparr>peer_id = ''A'', peer_height = 5, numRequests = - 1\<rparr>) = - 1"
  by (simp add: trace_below_def s_below_def eval_simps)

text \<open>
  Claim C8, as the code has it. \<^verbatim>\<open>pickIncrAvailablePeer\<close>, \<^verbatim>\<open>SetPeerHeight\<close> and
  \<^verbatim>\<open>RemovePeer\<close> keep every counter at most 20 and keep every counter at least 0; a peer
  that registers anew starts at 0. \<^verbatim>\<open>decrPeer\<close> does nothing for an id that is not
  registered and lowers the counter of a registered peer by one with no floor (one less as
  a signed number, short of the least \<^verbatim>\<open>int32\<close>), so it keeps the upper bound and not the
  lower one.
\<close>

theorem numRequests_bounds_by_call:
  "(under_cap s \<longrightarrow>
      under_cap (snd (pickIncrAvailablePeer order m s)) \<and>
      under_cap (SetPeerHeight pid h s) \<and> under_cap (RemovePeer pid s)) \<and>
   (not_negative s \<longrightarrow>
      not_negative (snd (pickIncrAvailablePeer order m s)) \<and>
      not_negative (SetPeerHeight pid h s) \<and> not_negative (RemovePeer pid s)) \<and>
   (peers s pid = None \<longrightarrow>
      peers (SetPeerHeight pid h s) pid = Some \<lparr>peer_id = pid, peer_height = h, numRequests = 0\<rparr> \<and>
      decrPeer pid s = s) \<and>
   (\<forall>q. peers s pid = Some q \<longrightarrow>
      decrPeer pid s = s\<lparr>peers := (peers s)(pid \<mapsto> q\<lparr>numRequests := numRequests q - 1\<rparr>)\<rparr> \<and>
      (- 2147483648 < sint (numRequests q) \<longrightarrow>
         sint (numRequests q - 1) = sint (numRequests q) - 1) \<and>
      (under_cap s \<and> - 2147483648 < sint (numRequests q) \<longrightarrow> under_cap (decrPeer pid s)))"
proof -
  have 1: "under_cap (SetPeerHeight pid h s) \<and> under_cap (RemovePeer pid s)" if "under_cap s"
    using that
    by (auto simp: under_cap_def SetPeerHeight_def RemovePeer_def maxRequestsPerPeer_def
        split: option.splits if_splits)
  have 2: "not_negative (SetPeerHeight pid h s) \<and> not_negative (RemovePeer pid s)" if "not_negative s"
    using that
    by (auto simp: not_negative_def SetPeerHeight_def RemovePeer_def split: option.splits if_splits)
  have 3: "peers (SetPeerHeight pid h s) pid = Some \<lparr>peer_id = pid, peer_height = h, numRequests = 0\<rparr> \<and>
      decrPeer pid s = s" if "peers s pid = None"
    using that by (simp add: SetPeerHeight_def decrPeer_def)
  have 4: "decrPeer pid s = s\<lparr>peers := (peers s)(pid \<mapsto> q\<lparr>numRequests := numRequests q - 1\<rparr>)\<rparr>"
    if "peers s pid = Some q" for q
    using that by (simp add: decrPeer_def)
  have 5: "sint (numRequests q - 1) = sint (numRequests q) - 1"
    if "- 2147483648 < sint (numRequests q)" for q :: bpPeer
    using that by (rule sint_pred32)
  have 6: "under_cap (decrPeer pid s)"
    if "peers s pid = Some q" "under_cap s" "- 2147483648 < sint (numRequests q)" for q
  proof -
    have "sint (numRequests q) \<le> maxRequestsPerPeer"
      using that(1,2) by (simp add: under_cap_def)
    then have "sint (numRequests q - 1) \<le> maxRequestsPerPeer"
      using 5 [OF that(3)] by simp
    with that(2) show ?thesis
      by (auto simp: under_cap_def 4 [OF that(1)] split: if_splits)
  qed
  from 1 2 3 4 5 6 under_cap_pick [of s order m] not_negative_pick [of s order m]
  show ?thesis by blast
qed

theorem numRequests_bounds_by_call_witness:
  "under_cap s_capped \<and> not_negative s_capped \<and>
   under_cap (snd (pickIncrAvailablePeer [''A'', ''B''] 7 s_capped)) \<and>
   not_negative (snd (pickIncrAvailablePeer [''A'', ''B''] 7 s_capped)) \<and>
   under_cap (SetPeerHeight ''C'' 9 s_capped) \<and> not_negative (SetPeerHeight ''C'' 9 s_capped) \<and>
   under_cap (RemovePeer ''C'' s_capped) \<and> not_negative (RemovePeer ''C'' s_capped) \<and>
   peers s_capped ''C'' = None \<and>
   peers (SetPeerHeight ''C'' 9 s_capped) ''C'' =
     Some \<lparr>peer_id = ''C'', peer_height = 9, numRequests = 0\<rparr> \<and>
   decrPeer ''C'' s_capped = s_capped \<and>
   peers s_capped ''B'' = Some \<lparr>peer_id = ''B'', peer_height = 1000, numRequests = 3\<rparr> \<and>
   peers (decrPeer ''B'' s_capped) ''B'' = Some \<lparr>peer_id = ''B'', peer_height = 1000, numRequests = 2\<rparr> \<and>
   under_cap (decrPeer ''B'' s_capped)"
proof -
  have u: "under_cap s_capped"
    by (auto simp: under_cap_def s_capped_def NewBlockPool_def maxRequestsPerPeer_def split: if_splits)
  have n: "not_negative s_capped"
    by (auto simp: not_negative_def s_capped_def NewBlockPool_def split: if_splits)
  have c: "peers s_capped ''C'' = None" by (simp add: s_capped_def NewBlockPool_def)
  have b: "peers s_capped ''B'' = Some \<lparr>peer_id = ''B'', peer_height = 1000, numRequests = 3\<rparr>"
    by (simp add: s_capped_def NewBlockPool_def)
  have g: "- 2147483648 < sint (numRequests \<lparr>peer_id = ''B'', peer_height = 1000, numRequests = 3\<rparr>)"
    by simp
  note t1 = numRequests_bounds_by_call [of s_capped "[''A'', ''B'']" 7 "''C''" 9]
  note t2 = numRequests_bounds_by_call [of s_capped "[''A'', ''B'']" 7 "''B''" 9]
  from t1 u n c have 1:
    "under_cap (snd (pickIncrAvailablePeer [''A'', ''B''] 7 s_capped))"
    "not_negative (snd (pickIncrAvailablePeer [''A'', ''B''] 7 s_capped))"
    "under_cap (SetPeerHeight ''C'' 9 s_capped)" "not_negative (SetPeerHeight ''C'' 9 s_capped)"
    "under_cap (RemovePeer ''C'' s_capped)" "not_negative (RemovePeer ''C'' s_capped)"
    "peers (SetPeerHeight ''C'' 9 s_capped) ''C'' =
       Some \<lparr>peer_id = ''C'', peer_height = 9, numRequests = 0\<rparr>"
    "decrPeer ''C'' s_capped = s_capped"
    by blast+
  from t2 u b g have 2:
    "decrPeer ''B'' s_capped = s_capped\<lparr>peers := (peers s_capped)(''B'' \<mapsto>
        \<lparr>peer_id = ''B'', peer_height = 1000, numRequests = 3\<rparr>\<lparr>numRequests := numRequests \<lparr>peer_id = ''B'', peer_height = 1000, numRequests = 3\<rparr> - 1\<rparr>)\<rparr>"
    "under_cap (decrPeer ''B'' s_capped)"
    by blast+
  from 2(1) have 3: "peers (decrPeer ''B'' s_capped) ''B'' =
      Some \<lparr>peer_id = ''B'', peer_height = 1000, numRequests = 2\<rparr>"
    by simp
  show ?thesis using u n c b 1 2(2) 3 by simp
qed

section \<open>The request routine (claim C9)\<close>









section \<open>The read operations (claim C10)\<close>

text \<open>
  Claim C10. \<^verbatim>\<open>GetStatus\<close>, \<^verbatim>\<open>PeekTwoBlocks\<close> and \<^verbatim>\<open>hasBlock\<close> return the pool they were
  called on: requests, height, counters, peers and all the rest are the same before and
  after the call.
\<close>

theorem reads_leave_pool:
  "snd (GetStatus s) = s \<and> snd (PeekTwoBlocks s) = s \<and> snd (hasBlock h s) = s \<and>
   fst (GetStatus s) = (height s, numPending s, numTotal s)"
  by (simp add: GetStatus_def PeekTwoBlocks_def hasBlock_def Let_def)

end
